theory Spec2Isabelle
  imports Main "HOL-Library.Word"
begin

unbundle bit_operations_syntax

section \<open>Go runtime values used by the embedding\<close>

text \<open>
  A Go \<open>string\<close> is a sequence of bytes, and so is a HOL \<open>string\<close> (\<open>char\<close> is 8 bits),
  so \<open>[]byte(s)\<close> is the identity. A run-time panic is a value of type \<open>panic\<close>; a function
  that can panic returns \<open>panic + 'a\<close>. A Go \<open>error\<close> result is its message, \<open>None\<close> for
  \<open>nil\<close>.
\<close>

datatype panic =
    IndexOutOfRange int nat     \<comment> \<open>index out of range [i] with length n\<close>
  | InterfaceConversion         \<comment> \<open>a failed type assertion \<open>x.(T)\<close>\<close>
  | NilDereference              \<comment> \<open>nil pointer dereference\<close>
  | PanicValue string           \<comment> \<open>\<open>panic(v)\<close> called by the program\<close>

type_synonym go_error = "string option"

definition index :: "'a list \<Rightarrow> int \<Rightarrow> panic + 'a" where
  \<comment> \<open>\<open>xs[i]\<close> on a slice\<close>
  "index xs i =
     (if 0 \<le> i \<and> i < int (length xs) then Inr (xs ! nat i)
      else Inl (IndexOutOfRange i (length xs)))"

section \<open>Standard library: \<open>crypto/sha1\<close>, \<open>crypto/hmac\<close>, \<open>fmt\<close>, \<open>strings\<close>\<close>

subsection \<open>SHA-1 (FIPS 180-4)\<close>

type_synonym u32 = "32 word"

definition be_bytes :: "nat \<Rightarrow> int \<Rightarrow> string" where
  \<comment> \<open>the low \<open>k\<close> bytes of \<open>n\<close>, most significant first\<close>
  "be_bytes k n = map (\<lambda>i. char_of (n div 256 ^ (k - 1 - i))) [0..<k]"

definition sha1_pad :: "string \<Rightarrow> string" where
  "sha1_pad m =
     m @ [char_of (128::int)]
       @ replicate ((119 - length m mod 64) mod 64) (char_of (0::int))
       @ be_bytes 8 (8 * int (length m))"

fun be_word :: "string \<Rightarrow> u32" where
  "be_word bs = foldl (\<lambda>w c. push_bit 8 w OR word_of_int (of_char c)) 0 bs"

fun chop :: "nat \<Rightarrow> 'a list \<Rightarrow> 'a list list" where
  "chop n [] = []"
| "chop n (x # xs) =
     (if n = 0 then [] else take n (x # xs) # chop n (drop n (x # xs)))"

fun sha1_schedule :: "nat \<Rightarrow> u32 list \<Rightarrow> u32 list" where
  "sha1_schedule 0 w = w"
| "sha1_schedule (Suc k) w =
     (let t = length w in
      sha1_schedule k
        (w @ [word_rotl 1 (w ! (t - 3) XOR w ! (t - 8) XOR w ! (t - 14) XOR w ! (t - 16))]))"

definition sha1_f :: "nat \<Rightarrow> u32 \<Rightarrow> u32 \<Rightarrow> u32 \<Rightarrow> u32" where
  "sha1_f t b c d =
     (if t < 20 then (b AND c) OR (NOT b AND d)
      else if t < 40 then b XOR c XOR d
      else if t < 60 then (b AND c) OR (b AND d) OR (c AND d)
      else b XOR c XOR d)"

definition sha1_k :: "nat \<Rightarrow> u32" where
  "sha1_k t =
     (if t < 20 then 0x5A827999
      else if t < 40 then 0x6ED9EBA1
      else if t < 60 then 0x8F1BBCDC
      else 0xCA62C1D6)"

type_synonym sha1_state = "u32 \<times> u32 \<times> u32 \<times> u32 \<times> u32"

fun sha1_round :: "u32 list \<Rightarrow> sha1_state \<Rightarrow> nat \<Rightarrow> sha1_state" where
  "sha1_round w (a, b, c, d, e) t =
     (word_rotl 5 a + sha1_f t b c d + e + sha1_k t + w ! t, a, word_rotl 30 b, c, d)"

fun sha1_block :: "sha1_state \<Rightarrow> string \<Rightarrow> sha1_state" where
  "sha1_block (h0, h1, h2, h3, h4) blk =
     (let w = sha1_schedule 64 (map be_word (chop 4 blk));
          (a, b, c, d, e) = foldl (sha1_round w) (h0, h1, h2, h3, h4) [0..<80]
      in (h0 + a, h1 + b, h2 + c, h3 + d, h4 + e))"

definition sha1_init :: sha1_state where
  "sha1_init = (0x67452301, 0xEFCDAB89, 0x98BADCFE, 0x10325476, 0xC3D2E1F0)"

definition sha1_Sum :: "string \<Rightarrow> string" where
  \<comment> \<open>\<open>sha1.Sum(data)\<close>: the 20-byte digest\<close>
  "sha1_Sum m =
     (case foldl sha1_block sha1_init (chop 64 (sha1_pad m)) of
        (h0, h1, h2, h3, h4) \<Rightarrow> concat (map (\<lambda>h. be_bytes 4 (uint h)) [h0, h1, h2, h3, h4]))"

subsection \<open>HMAC (RFC 2104) over SHA-1, with Go's \<open>hash.Hash\<close> interface\<close>

definition xor_pad :: "int \<Rightarrow> string \<Rightarrow> string" where
  "xor_pad p k = map (\<lambda>c. char_of ((of_char c :: int) XOR p)) k"

definition hmac_sha1 :: "string \<Rightarrow> string \<Rightarrow> string" where
  \<comment> \<open>HMAC-SHA1 keyed by \<open>key\<close> over the message \<open>msg\<close>\<close>
  "hmac_sha1 key msg =
     (let k0 = (if length key > 64 then sha1_Sum key else key);
          k = k0 @ replicate (64 - length k0) (char_of (0::int))
      in sha1_Sum (xor_pad 0x5c k @ sha1_Sum (xor_pad 0x36 k @ msg)))"

record hmac =
  hmac_key :: string
  written :: string    \<comment> \<open>the bytes fed to the hash with \<open>Write\<close> so far\<close>

definition hmac_New :: "string \<Rightarrow> hmac" where
  \<comment> \<open>\<open>hmac.New(sha1.New, key)\<close>: a fresh hash, nothing written\<close>
  "hmac_New key = \<lparr>hmac_key = key, written = []\<rparr>"

definition hmac_Write :: "hmac \<Rightarrow> string \<Rightarrow> hmac" where
  "hmac_Write h p = h\<lparr>written := written h @ p\<rparr>"

definition hmac_Sum :: "hmac \<Rightarrow> string \<Rightarrow> string" where
  \<comment> \<open>\<open>h.Sum(b)\<close> appends the current hash to \<open>b\<close> and returns the resulting slice;
      \<open>b\<close> is not hashed\<close>
  "hmac_Sum h b = b @ hmac_sha1 (hmac_key h) (written h)"

subsection \<open>\<open>fmt.Sprintf("%x", bytes)\<close>\<close>

definition hex_digit :: "nat \<Rightarrow> char" where
  "hex_digit n = ''0123456789abcdef'' ! n"

definition hex_byte :: "char \<Rightarrow> string" where
  "hex_byte c = [hex_digit (of_char c div 16), hex_digit (of_char c mod 16)]"

definition hex :: "string \<Rightarrow> string" where
  "hex bs = concat (map hex_byte bs)"

subsection \<open>\<open>strings.Index\<close> and \<open>strings.SplitN(s, sep, 2)\<close>\<close>

fun Index :: "string \<Rightarrow> string \<Rightarrow> nat option" where
  "Index [] sep = (if sep = [] then Some 0 else None)"
| "Index (c # cs) sep =
     (if take (length sep) (c # cs) = sep then Some 0
      else map_option Suc (Index cs sep))"

definition SplitN2 :: "string \<Rightarrow> string \<Rightarrow> string list" where
  \<comment> \<open>\<open>strings.SplitN(s, sep, 2)\<close> for a non-empty \<open>sep\<close>: cut at the first occurrence\<close>
  "SplitN2 s sep =
     (case Index s sep of
        None \<Rightarrow> [s]
      | Some m \<Rightarrow> [take m s, drop (m + length sep) s])"

section \<open>utils.go: signed strings\<close>

definition SignString :: "string \<Rightarrow> string \<Rightarrow> string" where
  "SignString value key = hex (hmac_Sum (hmac_New key) value) @ ''----'' @ value"

definition ValidateSignedString :: "string \<Rightarrow> string \<Rightarrow> panic + (string \<times> go_error)" where
  "ValidateSignedString value key =
     (let parts = SplitN2 value ''----'' in
      case index parts (0::int) of
        Inl p \<Rightarrow> Inl p
      | Inr p0 \<Rightarrow>
         (case index parts (1::int) of
            Inl p \<Rightarrow> Inl p
          | Inr p1 \<Rightarrow>
             (if p0 = hex (hmac_Sum (hmac_New key) p1) then Inr (p1, None)
              else Inr ('''', Some ''data is tampered''))))"

section \<open>Standard library: \<open>time\<close>\<close>

text \<open>
  A \<open>time.Time\<close> is an instant in nanoseconds on the clock that \<open>time.Now()\<close> reads, and
  a \<open>time.Duration\<close> is a signed 64-bit count of nanoseconds: \<open>t.Sub(u)\<close> is the difference,
  saturated at the largest and smallest duration.
\<close>

type_synonym time = int
type_synonym duration = int

definition maxDuration :: duration where
  "maxDuration = 2 ^ 63 - 1"

definition minDuration :: duration where
  "minDuration = - (2 ^ 63)"

definition Sub :: "time \<Rightarrow> time \<Rightarrow> duration" where
  "Sub t u = max minDuration (min maxDuration (t - u))"

section \<open>session.go: sessions, flash messages and the memory store\<close>

text \<open>
  A \<open>Dict\<close> is a \<open>map[string]interface{}\<close>. The values the session code itself stores and
  reads are the flash map (a \<open>map[string][]string\<close>); every other dynamic value a handler may
  put in the dictionary is a \<open>DynString\<close>, \<open>DynInt\<close> or \<open>DynBool\<close> here. A type assertion on a value
  of another type, or on a missing key, panics.
\<close>

datatype dyn =
    FlashMap "string \<rightharpoonup> string list"
  | DynString string
  | DynInt int
  | DynBool bool

type_synonym Dict = "string \<rightharpoonup> dyn"

record Session =
  Dict :: Dict
  Killed :: bool
  Id :: string
  LastAccessTime :: time

definition FlashKey :: string where
  "FlashKey = ''_flash''"

definition NewSession :: "string \<Rightarrow> time \<Rightarrow> Session" where
  \<comment> \<open>the second argument is the reading of \<open>time.Now()\<close>\<close>
  "NewSession sid now =
     \<lparr>Dict = [FlashKey \<mapsto> FlashMap Map.empty], Killed = False, Id = sid, LastAccessTime = now\<rparr>"

definition UpdateLastAccessTime :: "Session \<Rightarrow> time \<Rightarrow> Session" where
  "UpdateLastAccessTime sess now = sess\<lparr>LastAccessTime := now\<rparr>"

definition Kill :: "Session \<Rightarrow> Session" where
  "Kill sess = sess\<lparr>Killed := True\<rparr>"

definition flash_of :: "Session \<Rightarrow> panic + (string \<rightharpoonup> string list)" where
  \<comment> \<open>\<open>sess.Get(FlashKey).(map[string][]string)\<close>\<close>
  "flash_of sess =
     (case Dict sess FlashKey of
        Some (FlashMap flash) \<Rightarrow> Inr flash
      | _ \<Rightarrow> Inl InterfaceConversion)"

definition slice_at :: "('k \<rightharpoonup> 'a list) \<Rightarrow> 'k \<Rightarrow> 'a list" where
  \<comment> \<open>\<open>m[k]\<close> on a map of slices: the nil slice for a missing key\<close>
  "slice_at m k = (case m k of None \<Rightarrow> [] | Some xs \<Rightarrow> xs)"

definition AddFlash :: "Session \<Rightarrow> string \<Rightarrow> string \<Rightarrow> panic + Session" where
  "AddFlash sess category message =
     (case flash_of sess of
        Inl p \<Rightarrow> Inl p
      | Inr flash \<Rightarrow>
          (let flash1 = (if flash category = None then flash(category \<mapsto> []) else flash);
               flash2 = flash1(category \<mapsto> slice_at flash1 category @ [message])
           in Inr (sess\<lparr>Dict := (Dict sess)(FlashKey \<mapsto> FlashMap flash2)\<rparr>)))"

definition Flash :: "Session \<Rightarrow> string \<Rightarrow> panic + (Session \<times> string list)" where
  "Flash sess category =
     (case flash_of sess of
        Inl p \<Rightarrow> Inl p
      | Inr flash \<Rightarrow>
          (let sess' = sess\<lparr>Dict := (Dict sess)(FlashKey \<mapsto> FlashMap (flash(category := None)))\<rparr>
           in case flash category of
                None \<Rightarrow> Inr (sess', [])
              | Some v \<Rightarrow> Inr (sess', v)))"

definition Flashes :: "Session \<Rightarrow> panic + (Session \<times> (string \<rightharpoonup> string list))" where
  "Flashes sess =
     (case flash_of sess of
        Inl p \<Rightarrow> Inl p
      | Inr flash \<Rightarrow> Inr (sess\<lparr>Dict := (Dict sess)(FlashKey \<mapsto> FlashMap Map.empty)\<rparr>, flash))"

text \<open>
  \<open>for k, v := range m\<close> visits every entry of the map once, in an order the runtime picks
  afresh for each loop. A loop over a map takes the order it runs in as a list of entries;
  \<open>ranges m es\<close> says that \<open>es\<close> is one of the orders \<open>range m\<close> can produce.
\<close>

definition ranges :: "('k \<rightharpoonup> 'v) \<Rightarrow> ('k \<times> 'v) list \<Rightarrow> bool" where
  "ranges m es = (distinct (map fst es) \<and> map_of es = m)"

record MemorySessionStore =
  LifeTime :: duration    \<comment> \<open>\<open>ms.middleware.Config.LifeTime\<close>\<close>
  store :: "string \<rightharpoonup> Session"

definition Exists :: "MemorySessionStore \<Rightarrow> string \<Rightarrow> bool" where
  "Exists ms sessionId = (store ms sessionId \<noteq> None)"

definition Delete :: "MemorySessionStore \<Rightarrow> string \<Rightarrow> MemorySessionStore" where
  "Delete ms sessionId = ms\<lparr>store := (store ms)(sessionId := None)\<rparr>"

fun Gc_delkeys :: "duration \<Rightarrow> (nat \<Rightarrow> time) \<Rightarrow> nat \<Rightarrow> (string \<times> Session) list \<Rightarrow> string list" where
  \<comment> \<open>the first loop of \<open>Gc\<close>; \<open>clock i\<close> is what \<open>time.Now()\<close> returns in iteration \<open>i\<close>\<close>
  "Gc_delkeys life clock i [] = []"
| "Gc_delkeys life clock i ((k, v) # es) =
     (if Sub (clock i) (LastAccessTime v) > life
      then k # Gc_delkeys life clock (Suc i) es
      else Gc_delkeys life clock (Suc i) es)"

definition Gc :: "MemorySessionStore \<Rightarrow> (string \<times> Session) list \<Rightarrow> (nat \<Rightarrow> time) \<Rightarrow> MemorySessionStore" where
  \<comment> \<open>\<open>es\<close> is the order in which \<open>range ms.store\<close> runs\<close>
  "Gc ms es clock = foldl Delete ms (Gc_delkeys (LifeTime ms) clock 0 es)"

section \<open>Standard library: \<open>strings.ToUpper\<close>, \<open>regexp\<close>, \<open>net/http\<close>\<close>

definition upper_byte :: "char \<Rightarrow> char" where
  "upper_byte c =
     (if (97::nat) \<le> of_char c \<and> of_char c \<le> (122::nat) then char_of (of_char c - (32::nat)) else c)"

definition is_ascii :: "string \<Rightarrow> bool" where
  \<comment> \<open>no byte is \<open>utf8.RuneSelf\<close> (0x80) or above\<close>
  "is_ascii s = list_all (\<lambda>c. (of_char c :: nat) < 128) s"

definition ToUpper :: "(string \<Rightarrow> string) \<Rightarrow> string \<Rightarrow> string" where
  \<comment> \<open>\<open>strings.ToUpper\<close>: on ASCII-only text the letters \<open>a\<close>..\<open>z\<close> become \<open>A\<close>..\<open>Z\<close>; on
      any other text the result is \<open>strings.Map(unicode.ToUpper, s)\<close>, the mapping of the
      Unicode tables, which is the first argument\<close>
  "ToUpper unicode_upper s = (if is_ascii s then map upper_byte s else unicode_upper s)"

text \<open>
  A compiled \<open>*regexp.Regexp\<close> is used by the dispatcher through \<open>FindStringSubmatch\<close>
  only, so a compiled pattern is that function: the whole match followed by the captured
  groups, or the empty list (\<open>nil\<close>) when the text does not match. The regexp compiler is a
  parameter of \<open>NewRoute\<close>; \<open>anchored\<close> below gives the compiled form of the patterns made
  of literal characters and groups \<open>(?P<name>[^c]+)\<close>.
\<close>

type_synonym Regexp = "string \<Rightarrow> string list"

text \<open>
  The two regular expressions that \<open>app.go\<close> itself compiles are sequences of literal
  characters and greedy negated classes \<open>[^c]+\<close>, one of them inside a capturing group.
  \<open>match_items\<close> matches such a sequence at the start of a text with the preference order
  of a backtracking matcher (leftmost-first, the longest repetition tried first), which is
  the match Go returns. The result is the length of the match and the captured groups.
  \<open>Eot\<close> is the end of the text, the \<open>$\<close> that \<open>NewRoute\<close> puts after a pattern.
\<close>

datatype re_item =
    Lit char             \<comment> \<open>one literal character\<close>
  | PlusNot bool char    \<comment> \<open>\<open>[^c]+\<close>; the flag says that it is a capturing group \<open>([^c]+)\<close>\<close>
  | Eot                  \<comment> \<open>\<open>$\<close>\<close>

fun first_some :: "'a option list \<Rightarrow> 'a option" where
  "first_some [] = None"
| "first_some (None # xs) = first_some xs"
| "first_some (Some x # xs) = Some x"

fun match_items :: "re_item list \<Rightarrow> string \<Rightarrow> (nat \<times> string list) option" where
  "match_items [] s = Some (0, [])"
| "match_items (Lit c # r) s =
     (case s of
        [] \<Rightarrow> None
      | x # xs \<Rightarrow>
          if x = c then map_option (\<lambda>(n, gs). (Suc n, gs)) (match_items r xs) else None)"
| "match_items (PlusNot cap c # r) s =
     first_some
       (map (\<lambda>k. map_option (\<lambda>(n, gs). (k + n, if cap then take k s # gs else gs))
                     (match_items r (drop k s)))
            (rev [1..<Suc (length (takeWhile (\<lambda>x. x \<noteq> c) s))]))"
| "match_items (Eot # r) s = (if s = [] then match_items r s else None)"

definition anchored :: "re_item list \<Rightarrow> Regexp" where
  \<comment> \<open>the compiled form of \<open>^e$\<close>, for an expression \<open>e\<close> that is a sequence of these items\<close>
  "anchored e s =
     (case match_items (e @ [Eot]) s of
        None \<Rightarrow> []
      | Some (n, gs) \<Rightarrow> take n s # gs)"

function FindAllStringSubmatch :: "re_item list \<Rightarrow> string \<Rightarrow> string list list" where
  \<comment> \<open>\<open>re.FindAllStringSubmatch(s, -1)\<close> for an expression that matches no empty text\<close>
  "FindAllStringSubmatch re [] = []"
| "FindAllStringSubmatch re (c # cs) =
     (case match_items re (c # cs) of
        None \<Rightarrow> FindAllStringSubmatch re cs
      | Some (n, gs) \<Rightarrow> (take n (c # cs) # gs) # FindAllStringSubmatch re (drop (n - 1) cs))"
  by pat_completeness auto
termination
  by (relation "measure (\<lambda>(re, s). length s)") auto

definition param_name_re :: "re_item list" where
  \<comment> \<open>\<open>\?P<([^<]+)>\<close>\<close>
  "param_name_re = [Lit CHR ''?'', Lit CHR ''P'', Lit CHR ''<'', PlusNot True CHR ''<'', Lit CHR ''>'']"

definition placeholder_re :: "re_item list" where
  \<comment> \<open>\<open>\(\?P<([^<]+)>[^\)]+\)\<close>\<close>
  "placeholder_re =
     [Lit CHR ''('', Lit CHR ''?'', Lit CHR ''P'', Lit CHR ''<'', PlusNot True CHR ''<'', Lit CHR ''>'',
      PlusNot False CHR '')'', Lit CHR '')'']"

section \<open>app.go: handlers, the response writer and the middleware chain\<close>

text \<open>
  The bodies of handlers, middlewares and hooks are user code. A body is modelled by what
  it does through its arguments \<open>(w, r)\<close>, as a list of actions run in order: it writes to
  the response, it calls \<open>RequestContext(r).MiddlewareChain.DoNext(w, r)\<close>, it panics.
\<close>

datatype action =
    Write string       \<comment> \<open>\<open>w.Write(b)\<close>\<close>
  | WriteHeader int    \<comment> \<open>\<open>w.WriteHeader(status)\<close>\<close>
  | Next               \<comment> \<open>\<open>RequestContext(r).MiddlewareChain.DoNext(w, r)\<close>\<close>
  | Panic string       \<comment> \<open>\<open>panic(v)\<close>\<close>

type_synonym handler = "action list"

record responseWriter =
  status :: int
  contentLength :: int
  header_calls :: "int list"   \<comment> \<open>the calls of the wrapped \<open>WriteHeader\<close>\<close>
  body :: "string list"        \<comment> \<open>the calls of the wrapped \<open>Write\<close>\<close>

definition NewResponseWriter :: responseWriter where
  "NewResponseWriter = \<lparr>status = 0, contentLength = 0, header_calls = [], body = []\<rparr>"

text \<open>
  The writer's own hook registry is empty when the writer is created and no action above
  adds to it, so the hook runs inside \<open>WriteHeader\<close> and \<open>Write\<close> do nothing here.
\<close>

definition w_WriteHeader :: "int \<Rightarrow> responseWriter \<Rightarrow> responseWriter" where
  "w_WriteHeader st w = w\<lparr>status := st, header_calls := header_calls w @ [st]\<rparr>"

definition w_Write :: "string \<Rightarrow> responseWriter \<Rightarrow> responseWriter" where
  "w_Write b w =
     (let w1 = (if contentLength w = 0
                then (let w0 = (if status w = 0 then w\<lparr>status := 200\<rparr> else w)
                      in w_WriteHeader (status w0) w0)
                else w)
      in w1\<lparr>body := body w1 @ [b], contentLength := contentLength w1 + int (length b)\<rparr>)"

record MiddlewareChain =
  middlewares :: "handler list"
  sp :: int

definition NewMiddlewareChain :: "handler list \<Rightarrow> MiddlewareChain" where
  "NewMiddlewareChain mds = \<lparr>middlewares = mds, sp = - 1\<rparr>"

definition Copy :: "MiddlewareChain \<Rightarrow> MiddlewareChain" where
  "Copy mc = NewMiddlewareChain (middlewares mc)"

record Route =
  Name :: string
  PathParamNames :: "string list"
  Method :: string
  Pattern :: Regexp
  PatternString :: string
  IsStatic :: bool
  Chain :: MiddlewareChain    \<comment> \<open>the field \<open>MiddlewareChain\<close>\<close>

definition NopMiddleware :: handler where
  "NopMiddleware = []"

definition NewRoute ::
  "(string \<Rightarrow> Regexp) \<Rightarrow> string \<Rightarrow> string \<Rightarrow> string \<Rightarrow> bool \<Rightarrow> handler \<Rightarrow> handler list \<Rightarrow> Route" where
  \<comment> \<open>the first argument is \<open>regexp.MustCompile\<close>\<close>
  "NewRoute MustCompile n p m s handler mws =
     \<lparr>Name = n,
      PathParamNames = map (\<lambda>lst. lst ! 1) (FindAllStringSubmatch param_name_re p),
      Method = m,
      Pattern = MustCompile (''^'' @ p @ ''$''),
      PatternString = p,
      IsStatic = s,
      Chain = NewMiddlewareChain (mws @ [handler, NopMiddleware])\<rparr>"

record Context =
  ctx_Route :: "Route option"               \<comment> \<open>the field \<open>Route\<close>, \<open>nil\<close> until a route matches\<close>
  PathParams :: "(string \<times> string) list"   \<comment> \<open>the \<open>url.Values\<close>, in the order of the \<open>Add\<close> calls\<close>
  StartedAt :: time
  ResponseTime :: duration
  ctx_Chain :: "MiddlewareChain option"     \<comment> \<open>the field \<open>MiddlewareChain\<close>, \<open>nil\<close> until the route runs\<close>

definition NewContext :: Context where
  "NewContext = \<lparr>ctx_Route = None, PathParams = [], StartedAt = 0, ResponseTime = 0, ctx_Chain = None\<rparr>"

record exchange =
  w :: responseWriter
  ctx :: Context

text \<open>
  Running user code. The first argument of \<open>run\<close> is the call stack: the actions that are
  left of the body that is running, then those left of the body that called it, and so on.
  \<open>Next\<close> is \<open>DoNext\<close>: it advances the cursor of the request's chain and calls the link
  there, which pushes that link's body. A panic unwinds the whole stack; the exchange keeps
  what was done before it.
\<close>

definition room :: "exchange \<Rightarrow> nat" where
  \<comment> \<open>the links of the request's chain that lie after the cursor\<close>
  "room x =
     (case ctx_Chain (ctx x) of
        None \<Rightarrow> 0
      | Some mc \<Rightarrow> nat (int (length (middlewares mc)) - sp mc))"

definition advance :: "exchange \<Rightarrow> exchange \<times> (panic + handler)" where
  \<comment> \<open>\<open>mc.sp += 1\<close>, then the read of \<open>mc.middlewares[mc.sp]\<close>\<close>
  "advance x =
     (case ctx_Chain (ctx x) of
        None \<Rightarrow> (x, Inl NilDereference)
      | Some mc \<Rightarrow>
          (let mc' = mc\<lparr>sp := sp mc + 1\<rparr>
           in (x\<lparr>ctx := (ctx x)\<lparr>ctx_Chain := Some mc'\<rparr>\<rparr>, index (middlewares mc') (sp mc'))))"

function run :: "handler list \<Rightarrow> exchange \<Rightarrow> panic option \<times> exchange" where
  "run [] x = (None, x)"
| "run ([] # ks) x = run ks x"
| "run ((Write b # as) # ks) x = run (as # ks) (x\<lparr>w := w_Write b (w x)\<rparr>)"
| "run ((WriteHeader st # as) # ks) x = run (as # ks) (x\<lparr>w := w_WriteHeader st (w x)\<rparr>)"
| "run ((Panic v # as) # ks) x = (Some (PanicValue v), x)"
| "run ((Next # as) # ks) x =
     (case advance x of
        (x', Inl p) \<Rightarrow> (Some p, x')
      | (x', Inr h) \<Rightarrow> run (h # as # ks) x')"
  by pat_completeness auto

lemma advance_room: "advance x = (x', Inr h) \<Longrightarrow> room x' < room x"
  by (auto simp: advance_def room_def index_def Let_def split: option.splits if_splits)

lemma room_w_update: "room (x\<lparr>w := y\<rparr>) = room x"
  by (simp add: room_def)

termination run
  apply (relation "measures [\<lambda>(ks, x). room x, \<lambda>(ks, x). size_list length ks]")
  apply (auto simp: room_w_update dest: advance_room [OF sym])
  done

definition Route_ServeHTTP :: "Route \<Rightarrow> exchange \<Rightarrow> panic option \<times> exchange" where
  "Route_ServeHTTP route x =
     run [[Next]] (x\<lparr>ctx := (ctx x)\<lparr>ctx_Chain := Some (Copy (Chain route))\<rparr>\<rparr>)"

subsection \<open>Hooks\<close>

type_synonym Hooks = "string \<rightharpoonup> handler list"

datatype HookDirection = HookDirectionNormal | HookDirectionReverse

definition Hooks_Run :: "Hooks \<Rightarrow> string \<Rightarrow> HookDirection \<Rightarrow> exchange \<Rightarrow> panic option \<times> exchange" where
  \<comment> \<open>the hooks are called one after the other; a panic in one ends the loop\<close>
  "Hooks_Run hooks name direction x =
     (if direction = HookDirectionNormal then run (slice_at hooks name) x
      else run (rev (slice_at hooks name)) x)"

definition Hooks_Add :: "Hooks \<Rightarrow> string \<Rightarrow> handler \<Rightarrow> Hooks" where
  "Hooks_Add hooks name hook = hooks(name \<mapsto> slice_at hooks name @ [hook])"

subsection \<open>The application, dispatch and reverse URLs\<close>

record AppConfig =
  Debug :: bool
  AllowHttpMethodOverwrite :: bool

record App =
  Config :: AppConfig
  Routes :: "string \<rightharpoonup> Route"
  app_Hooks :: Hooks                  \<comment> \<open>the field \<open>Hooks\<close>\<close>
  OnPanic :: "panic \<Rightarrow> handler"        \<comment> \<open>the body of \<open>OnPanic(w, r, rcv)\<close> for each \<open>rcv\<close>\<close>
  OnNotFound :: handler

record Request =
  req_Method :: string          \<comment> \<open>\<open>r.Method\<close>\<close>
  URL_Path :: string            \<comment> \<open>\<open>r.URL.Path\<close>\<close>
  PostForm_method :: string     \<comment> \<open>\<open>r.PostFormValue("_method")\<close>\<close>

definition http_Error :: "string \<Rightarrow> int \<Rightarrow> handler" where
  \<comment> \<open>\<open>http.Error(w, error, code)\<close>: the status line, then the message and a newline\<close>
  "http_Error msg code = [WriteHeader code, Write (msg @ [CHR 0x0A])]"

definition DefaultOnPanic :: "AppConfig \<Rightarrow> (panic \<Rightarrow> string) \<Rightarrow> panic \<Rightarrow> handler" where
  \<comment> \<open>the second argument is \<open>fmt.Sprintf("%v:\n\n%s", rcv, debug.Stack())\<close>\<close>
  "DefaultOnPanic cfg stack_text rcv =
     (if Debug cfg then http_Error (stack_text rcv) 500
      else http_Error ''Internal Server Error'' 500)"

definition DefaultOnNotFound :: handler where
  "DefaultOnNotFound = http_Error ''404 page not found'' 404"

function replace_placeholders :: "string list \<Rightarrow> int \<Rightarrow> string \<Rightarrow> panic + string" where
  \<comment> \<open>\<open>reg.ReplaceAllStringFunc\<close> with the closure of \<open>BuildUrl\<close>, which counts the matches\<close>
  "replace_placeholders args counter [] = Inr []"
| "replace_placeholders args counter (c # cs) =
     (case match_items placeholder_re (c # cs) of
        None \<Rightarrow>
          (case replace_placeholders args counter cs of
             Inl p \<Rightarrow> Inl p
           | Inr u \<Rightarrow> Inr (c # u))
      | Some (n, gs) \<Rightarrow>
          (case index args (counter + 1) of
             Inl p \<Rightarrow> Inl p
           | Inr a \<Rightarrow>
               (case replace_placeholders args (counter + 1) (drop (n - 1) cs) of
                  Inl p \<Rightarrow> Inl p
                | Inr u \<Rightarrow> Inr (a @ u))))"
  by pat_completeness auto
termination
  by (relation "measure (\<lambda>(args, counter, s). length s)") auto

definition BuildUrl :: "App \<Rightarrow> string \<Rightarrow> string list \<Rightarrow> panic + string" where
  "BuildUrl app n args =
     (case Routes app n of
        None \<Rightarrow> Inl (PanicValue (''Route '' @ [CHR 0x27] @ n @ [CHR 0x27] @ '' not defined.''))
      | Some route \<Rightarrow> replace_placeholders args (- 1) (PatternString route))"

fun add_PathParams :: "string list \<Rightarrow> string list \<Rightarrow> int \<Rightarrow> Context \<Rightarrow> panic option \<times> Context" where
  \<comment> \<open>\<open>for i, pathParamName := range route.PathParamNames\<close>, from index \<open>i\<close> on\<close>
  "add_PathParams [] submatches i c = (None, c)"
| "add_PathParams (name # names) submatches i c =
     (case index submatches (i + 1) of
        Inl p \<Rightarrow> (Some p, c)
      | Inr v \<Rightarrow> add_PathParams names submatches (i + 1) (c\<lparr>PathParams := PathParams c @ [(name, v)]\<rparr>))"

fun match_routes ::
  "(string \<Rightarrow> string) \<Rightarrow> string \<Rightarrow> string \<Rightarrow> (string \<times> Route) list \<Rightarrow> Context \<Rightarrow> panic option \<times> Context" where
  \<comment> \<open>\<open>for _, route := range app.Routes\<close>, run in the order of the fourth argument; \<open>U\<close> is
      the Unicode mapping of \<open>strings.ToUpper\<close>\<close>
  "match_routes U method path [] c = (None, c)"
| "match_routes U method path ((n, route) # rest) c =
     (if ToUpper U method \<noteq> ToUpper U (Method route) then match_routes U method path rest c
      else
        (let submatches = Pattern route path in
         case (if length submatches > 0
               then (case add_PathParams (PathParamNames route) submatches 0 c of
                       (Some p, c') \<Rightarrow> (Some p, c')
                     | (None, c') \<Rightarrow> (None, c'\<lparr>ctx_Route := Some route\<rparr>))
               else (None, c)) of
           (Some p, c') \<Rightarrow> (Some p, c')
         | (None, c') \<Rightarrow>
             if ctx_Route c' \<noteq> None then (None, c') else match_routes U method path rest c'))"

definition and_then :: "panic option \<times> 's \<Rightarrow> ('s \<Rightarrow> panic option \<times> 's) \<Rightarrow> panic option \<times> 's" where
  \<comment> \<open>the next statement runs unless the one before panicked\<close>
  "and_then r f = (case r of (Some p, s) \<Rightarrow> (Some p, s) | (None, s) \<Rightarrow> f s)"

definition dispatch_method :: "App \<Rightarrow> Request \<Rightarrow> string" where
  \<comment> \<open>the method the routes are compared with: the form field \<open>_method\<close> replaces the verb\<close>
  "dispatch_method app r =
     (if AllowHttpMethodOverwrite (Config app) \<and> length (PostForm_method r) > 0
      then PostForm_method r else req_Method r)"

definition serve ::
  "(string \<Rightarrow> string) \<Rightarrow> App \<Rightarrow> (string \<times> Route) list \<Rightarrow> Request \<Rightarrow> exchange \<Rightarrow> panic option \<times> exchange" where
  \<comment> \<open>the statements of \<open>App.ServeHTTP\<close> after \<open>defer app.cleanup(w, r)\<close>; \<open>order\<close> is the
      order in which \<open>range app.Routes\<close> runs\<close>
  "serve U app order r x0 =
     and_then (Hooks_Run (app_Hooks app) ''start_request'' HookDirectionNormal x0) (\<lambda>x1.
       case match_routes U (dispatch_method app r) (URL_Path r) order (ctx x1) of
            (Some p, c) \<Rightarrow> (Some p, x1\<lparr>ctx := c\<rparr>)
          | (None, c) \<Rightarrow>
              (case ctx_Route c of
                 None \<Rightarrow> run [OnNotFound app] (x1\<lparr>ctx := c\<rparr>)
               | Some route \<Rightarrow>
                   and_then (Hooks_Run (app_Hooks app) ''start_action'' HookDirectionNormal
                               (x1\<lparr>ctx := c\<rparr>)) (\<lambda>x3.
                   and_then (Route_ServeHTTP route x3) (\<lambda>x4.
                   Hooks_Run (app_Hooks app) ''end_action'' HookDirectionReverse x4))))"

definition cleanup :: "App \<Rightarrow> time \<Rightarrow> panic option \<times> exchange \<Rightarrow> panic option \<times> exchange" where
  \<comment> \<open>the deferred call: its last argument is how the statements after \<open>defer\<close> ended
      (\<open>recover()\<close> returns the panic value, or \<open>nil\<close>), its second the reading of \<open>time.Now()\<close>\<close>
  "cleanup app now r =
     (case r of (rcv, x) \<Rightarrow>
        and_then (case rcv of None \<Rightarrow> (None, x) | Some v \<Rightarrow> run [OnPanic app v] x) (\<lambda>x1.
          Hooks_Run (app_Hooks app) ''end_request'' HookDirectionReverse
            (x1\<lparr>ctx := (ctx x1)\<lparr>ResponseTime := Sub now (StartedAt (ctx x1))\<rparr>\<rparr>)))"

definition ServeHTTP ::
  "(string \<Rightarrow> string) \<Rightarrow> App \<Rightarrow> (string \<times> Route) list \<Rightarrow> Request \<Rightarrow> time \<Rightarrow> time \<Rightarrow> panic option \<times> exchange" where
  \<comment> \<open>\<open>t0\<close> and \<open>t1\<close> are the readings of \<open>time.Now()\<close> at the start and in \<open>cleanup\<close>; the
      result is the panic that leaves \<open>ServeHTTP\<close>, if any, and the exchange at the end\<close>
  "ServeHTTP U app order r t0 t1 =
     cleanup app t1 (serve U app order r \<lparr>w = NewResponseWriter, ctx = NewContext\<lparr>StartedAt := t0\<rparr>\<rparr>)"

subsection \<open>Notions used to state the properties\<close>

definition calls_Next :: "handler \<Rightarrow> nat" where
  \<comment> \<open>how many times a body calls \<open>DoNext\<close>\<close>
  "calls_Next h = count_list h Next"

definition is_write :: "action \<Rightarrow> bool" where
  "is_write a = (case a of Write b \<Rightarrow> True | WriteHeader st \<Rightarrow> True | Next \<Rightarrow> False | Panic v \<Rightarrow> False)"

definition quiet :: "handler \<Rightarrow> bool" where
  \<comment> \<open>a body that only writes to the response: it does not panic and does not call \<open>DoNext\<close>\<close>
  "quiet h = list_all is_write h"

definition written :: "handler \<Rightarrow> string list" where
  \<comment> \<open>the chunks a body passes to \<open>w.Write\<close>, in order\<close>
  "written h = concat (map (\<lambda>a. case a of Write b \<Rightarrow> [b] | _ \<Rightarrow> []) h)"

definition placeholders :: "string \<Rightarrow> nat" where
  \<comment> \<open>the number of matches of the expression of \<open>BuildUrl\<close> in a raw pattern\<close>
  "placeholders p = length (FindAllStringSubmatch placeholder_re p)"

definition route_matches :: "(string \<Rightarrow> string) \<Rightarrow> string \<Rightarrow> string \<Rightarrow> Route \<Rightarrow> bool" where
  \<comment> \<open>the two tests of the dispatch loop: the method, case-insensitively, and the pattern\<close>
  "route_matches U method path route =
     (ToUpper U method = ToUpper U (Method route) \<and> length (Pattern route path) > 0)"

definition chain_inv :: "handler list \<Rightarrow> exchange \<Rightarrow> bool" where
  \<comment> \<open>the invariant of a run in which every link calls \<open>DoNext\<close> at most once: only the running
      body can still call it, and then a link is left for it\<close>
  "chain_inv ks x =
     (\<exists>mc. ctx_Chain (ctx x) = Some mc \<and> - 1 \<le> sp mc \<and> middlewares mc \<noteq> []
        \<and> (\<forall>h\<in>set (middlewares mc). calls_Next h \<le> 1)
        \<and> calls_Next (last (middlewares mc)) = 0
        \<and> (case ks of
              [] \<Rightarrow> True
            | k0 # rest \<Rightarrow>
                calls_Next k0 \<le> 1 \<and> (\<forall>k\<in>set rest. calls_Next k = 0)
                \<and> (calls_Next k0 = 1 \<longrightarrow> sp mc + 1 < int (length (middlewares mc)))))"

subsection \<open>The applications of \<open>app_test.go\<close> and of the wiki example\<close>

definition test_config :: AppConfig where
  \<comment> \<open>\<open>DefaultAppConfig()\<close>\<close>
  "test_config = \<lparr>Debug = False, AllowHttpMethodOverwrite = True\<rparr>"

definition two_params :: Regexp where
  \<comment> \<open>the compiled form of \<open>^/p1/(?P<param1>[^/]+)/(?P<param2>[^/]+)$\<close>\<close>
  "two_params =
     anchored (map Lit ''/p1/'' @ [PlusNot True CHR ''/'', Lit CHR ''/'', PlusNot True CHR ''/''])"

definition route_p1 :: Route where
  \<comment> \<open>the route \<open>p1\<close> of \<open>TestAppBuildUrl\<close>, mounted at \<open>/\<close>\<close>
  "route_p1 =
     NewRoute (\<lambda>e. two_params) ''p1'' ''/p1/(?P<param1>[^/]+)/(?P<param2>[^/]+)'' ''GET'' False [] []"

definition app_BuildUrl :: App where
  "app_BuildUrl =
     \<lparr>Config = test_config, Routes = [''p1'' \<mapsto> route_p1], app_Hooks = Map.empty,
      OnPanic = DefaultOnPanic test_config (\<lambda>rcv. []), OnNotFound = DefaultOnNotFound\<rparr>"

definition show_page :: Route where
  \<comment> \<open>the route \<open>show_page\<close> of the wiki example, mounted at \<open>/\<close>\<close>
  "show_page =
     NewRoute (\<lambda>e. anchored (map Lit ''/pages/'' @ [PlusNot True CHR ''/'']))
       ''show_page'' ''/pages/(?P<name>[^/]+)'' ''GET'' False [Write ''show''] []"

definition new_page :: Route where
  \<comment> \<open>a second route, with a pattern of its own, that matches one of the paths of \<open>show_page\<close>\<close>
  "new_page =
     NewRoute (\<lambda>e. anchored (map Lit ''/pages/new''))
       ''new_page'' ''/pages/new'' ''GET'' False [Write ''new''] []"

definition app_wiki :: App where
  "app_wiki =
     \<lparr>Config = test_config,
      Routes = [''show_page'' \<mapsto> show_page, ''new_page'' \<mapsto> new_page],
      app_Hooks = Map.empty,
      OnPanic = DefaultOnPanic test_config (\<lambda>rcv. []), OnNotFound = DefaultOnNotFound\<rparr>"

definition get_pages_new :: Request where
  \<comment> \<open>\<open>GET /pages/new\<close>\<close>
  "get_pages_new = \<lparr>req_Method = ''GET'', URL_Path = ''/pages/new'', PostForm_method = []\<rparr>"

definition get_pages_home :: Request where
  \<comment> \<open>\<open>GET /pages/home\<close>\<close>
  "get_pages_home = \<lparr>req_Method = ''GET'', URL_Path = ''/pages/home'', PostForm_method = []\<rparr>"

definition page1 :: Route where
  \<comment> \<open>the route of \<open>TestAppPanic\<close>: its handler panics\<close>
  "page1 = NewRoute (\<lambda>e. anchored (map Lit ''/page1'')) ''page1'' ''/page1'' ''GET'' False [Panic ''panic!''] []"

definition app_panic :: App where
  \<comment> \<open>the application of \<open>TestAppPanic\<close>, with two \<open>end_request\<close> hooks that write to the response\<close>
  "app_panic =
     \<lparr>Config = test_config, Routes = [''page1'' \<mapsto> page1],
      app_Hooks = [''end_request'' \<mapsto> [[Write ''first''], [Write ''second'']]],
      OnPanic = DefaultOnPanic test_config (\<lambda>rcv. []), OnNotFound = DefaultOnNotFound\<rparr>"

definition app_hook_panics :: App where
  \<comment> \<open>the application of \<open>TestAppPanic\<close> with the \<open>end_request\<close> hooks \<open>first\<close>, which writes, and
      \<open>boom\<close>, which panics, registered in this order\<close>
  "app_hook_panics =
     \<lparr>Config = test_config, Routes = [''page1'' \<mapsto> page1],
      app_Hooks = [''end_request'' \<mapsto> [[Write ''first''], [Panic ''boom'']]],
      OnPanic = DefaultOnPanic test_config (\<lambda>rcv. []), OnNotFound = DefaultOnNotFound\<rparr>"

definition app_OnPanic_panics :: App where
  \<comment> \<open>the application of \<open>TestAppPanic\<close> with a panic handler of its own that panics\<close>
  "app_OnPanic_panics =
     \<lparr>Config = test_config, Routes = [''page1'' \<mapsto> page1],
      app_Hooks = [''end_request'' \<mapsto> [[Write ''first'']]],
      OnPanic = (\<lambda>rcv. [Panic ''again'']), OnNotFound = DefaultOnNotFound\<rparr>"

definition get_page1 :: Request where
  \<comment> \<open>\<open>GET /page1\<close>\<close>
  "get_page1 = \<lparr>req_Method = ''GET'', URL_Path = ''/page1'', PostForm_method = []\<rparr>"

section \<open>Properties of signed strings\<close>

subsection \<open>Digests, hex encoding and splitting\<close>

lemma length_be_bytes: "length (be_bytes k n) = k"
  by (simp add: be_bytes_def)

lemma length_sha1_Sum: "length (sha1_Sum m) = 20"
  by (simp add: sha1_Sum_def length_be_bytes split: prod.splits)

lemma length_hmac_sha1: "length (hmac_sha1 key msg) = 20"
  by (simp add: hmac_sha1_def Let_def length_sha1_Sum)

lemma length_hex: "length (hex bs) = 2 * length bs"
  by (induction bs) (simp_all add: hex_def hex_byte_def)

lemma hex_append: "hex (xs @ ys) = hex xs @ hex ys"
  by (simp add: hex_def)

lemma hex_digit_not_dash: "n < 16 \<Longrightarrow> hex_digit n \<noteq> CHR ''-''"
proof -
  assume "n < 16"
  have "\<forall>k \<in> set [0..<16]. hex_digit k \<noteq> CHR ''-''" by code_simp
  with \<open>n < 16\<close> show ?thesis by simp
qed

lemma hex_digit_inj: "m < 16 \<Longrightarrow> n < 16 \<Longrightarrow> hex_digit m = hex_digit n \<Longrightarrow> m = n"
proof -
  assume a: "m < 16" "n < 16" "hex_digit m = hex_digit n"
  have d: "distinct ''0123456789abcdef''" by simp
  have l: "length ''0123456789abcdef'' = 16" by simp
  show ?thesis using a d l unfolding hex_digit_def
    by (metis nth_eq_iff_index_eq)
qed

lemma hex_byte_inj: "hex_byte c = hex_byte d \<Longrightarrow> c = d"
proof -
  assume a: "hex_byte c = hex_byte d"
  have c: "(of_char c :: nat) < 256" "(of_char d :: nat) < 256" by simp_all
  then have b: "(of_char c :: nat) div 16 < 16" "(of_char d :: nat) div 16 < 16"
    by (simp_all add: div_less_iff_less_mult)
  from a have "(of_char c :: nat) div 16 = of_char d div 16" "(of_char c :: nat) mod 16 = of_char d mod 16"
    using hex_digit_inj b by (auto simp: hex_byte_def)
  then have "(of_char c :: nat) = of_char d"
    by (metis div_mult_mod_eq)
  then show ?thesis by simp
qed

lemma hex_inj: "hex xs = hex ys \<Longrightarrow> xs = ys"
proof (induction xs arbitrary: ys)
  case Nil
  then show ?case by (cases ys) (simp_all add: hex_def hex_byte_def)
next
  case (Cons x xs)
  then show ?case
  proof (cases ys)
    case Nil
    with Cons show ?thesis by (simp add: hex_def hex_byte_def)
  next
    case (Cons y ys')
    with Cons.prems have "hex_byte x @ hex xs = hex_byte y @ hex ys'" by (simp add: hex_def)
    moreover have "length (hex_byte x) = length (hex_byte y)" by (simp add: hex_byte_def)
    ultimately have "hex_byte x = hex_byte y" "hex xs = hex ys'" by auto
    then show ?thesis using Cons.IH Cons hex_byte_inj by auto
  qed
qed

lemma hex_no_dash: "CHR ''-'' \<notin> set (hex bs)"
proof
  assume "CHR ''-'' \<in> set (hex bs)"
  then obtain b where "CHR ''-'' \<in> set (hex_byte b)"
    by (auto simp: hex_def)
  then have "hex_digit (of_char b div 16) = CHR ''-'' \<or> hex_digit (of_char b mod 16) = CHR ''-''"
    by (auto simp: hex_byte_def)
  moreover have "(of_char b :: nat) div 16 < 16"
    by (simp add: div_less_iff_less_mult)
  moreover have "(of_char b :: nat) mod 16 < 16"
    by simp
  ultimately show False
    using hex_digit_not_dash by blast
qed

lemma Index_Some:
  "Index s sep = Some m \<Longrightarrow> s = take m s @ sep @ drop (m + length sep) s"
proof (induction s arbitrary: m)
  case Nil
  then show ?case by (simp split: if_splits)
next
  case (Cons c cs)
  show ?case
  proof (cases "take (length sep) (c # cs) = sep")
    case True
    with Cons.prems have "m = 0" by simp
    with True show ?thesis
      by (metis append_take_drop_id add_0 take0 append_Nil)
  next
    case False
    with Cons.prems obtain m' where m': "Index cs sep = Some m'" "m = Suc m'" by auto
    from Cons.IH[OF m'(1)] m'(2) show ?thesis by simp
  qed
qed

lemma Index_None:
  "Index s sep = None \<Longrightarrow> s \<noteq> p @ sep @ q"
proof (induction s arbitrary: p)
  case Nil
  then show ?case by (auto split: if_splits)
next
  case (Cons c cs)
  from Cons.prems have ne: "take (length sep) (c # cs) \<noteq> sep" and n: "Index cs sep = None"
    by (auto split: if_splits)
  show ?case
  proof (cases p)
    case Nil
    with ne show ?thesis by auto
  next
    case (Cons x p')
    with Cons.IH[OF n, of p'] show ?thesis by auto
  qed
qed

lemma Index_hit:
  "c \<notin> set h \<Longrightarrow> Index (h @ (c # sep') @ v) (c # sep') = Some (length h)"
  by (induction h) auto

lemma Index_skip:
  "c \<notin> set h \<Longrightarrow> Index (h @ t) (c # sep') = map_option (\<lambda>m. length h + m) (Index t (c # sep'))"
proof (induction h)
  case Nil
  then show ?case by (simp add: option.map_ident)
next
  case (Cons x h)
  then have "x \<noteq> c" by auto
  with Cons show ?case by (simp add: option.map_comp comp_def)
qed

lemma SplitN2_SignString:
  "SplitN2 (SignString v k) ''----'' = [hex (hmac_Sum (hmac_New k) v), v]"
proof -
  let ?h = "hex (hmac_Sum (hmac_New k) v)"
  have "Index (?h @ ''----'' @ v) ''----'' = Some (length ?h)"
    using Index_hit[OF hex_no_dash, of "hmac_Sum (hmac_New k) v" "''---''" v] by simp
  then show ?thesis
    by (simp add: SplitN2_def SignString_def)
qed

lemma ValidateSignedString_SignString: "ValidateSignedString (SignString v k) k = Inr (v, None)"
  by (simp add: ValidateSignedString_def SplitN2_SignString index_def)

lemma validate_cases:
  "ValidateSignedString s k = Inl (IndexOutOfRange 1 1)
   \<or> ValidateSignedString s k = Inr ('''', Some ''data is tampered'')
   \<or> (\<exists>x. ValidateSignedString s k = Inr (x, None))"
  by (auto simp: ValidateSignedString_def SplitN2_def index_def Let_def split: option.splits)

lemma validate_sound:
  assumes "ValidateSignedString s k = Inr (x, None)"
  shows "s = SignString x k"
proof (cases "Index s ''----''")
  case None
  with assms show ?thesis
    by (simp add: ValidateSignedString_def SplitN2_def index_def)
next
  case (Some m)
  with assms have x: "x = drop (m + length ''----'') s"
    and h: "take m s = hex (hmac_Sum (hmac_New k) x)"
    by (auto simp: ValidateSignedString_def SplitN2_def index_def split: if_splits)
  from Index_Some[OF Some] have "s = take m s @ ''----'' @ drop (m + length ''----'') s" .
  with x h show ?thesis by (simp add: SignString_def)
qed

lemma length_SignString: "length (SignString v k) = 3 * length v + 44"
  by (simp add: SignString_def hmac_Sum_def length_hex length_hmac_sha1)

lemma SignString_single_change:
  assumes eq: "SignString x k = (SignString v k)[i := c]"
    and i: "i < length (SignString v k)"
  shows "c = SignString v k ! i"
proof -
  let ?m = "hex (hmac_sha1 k [])"
  have sx: "SignString x k = hex x @ ?m @ ''----'' @ x"
    and sv: "SignString v k = hex v @ ?m @ ''----'' @ v"
    by (simp_all add: SignString_def hmac_Sum_def hmac_New_def hex_append)
  from eq have "length (SignString x k) = length (SignString v k)" by simp
  then have len: "length x = length v" by (simp add: length_SignString)
  have "x = v"
  proof (cases "i < 2 * length v")
    case True
    from eq have "drop (2 * length v + 44) (SignString x k) = drop (2 * length v + 44) ((SignString v k)[i := c])"
      by simp
    with True show ?thesis
      using len by (simp add: sx sv length_hex length_hmac_sha1 drop_update_cancel)
  next
    case False
    from eq have "take (2 * length v) (SignString x k) = take (2 * length v) ((SignString v k)[i := c])"
      by simp
    with False have "hex x = hex v"
      using len by (simp add: sx sv length_hex)
    then show ?thesis by (rule hex_inj)
  qed
  with eq have "SignString v k = (SignString v k)[i := c]" by simp
  with i show ?thesis
    by (metis nth_list_update_eq)
qed

subsection \<open>Claims about signed strings\<close>

text \<open>
  C1. The claim: the signed value is the hex encoding of HMAC-SHA1, keyed by the secret,
  computed over the session id, then \<open>----\<close>, then the id. The code never writes the id
  into the hash: \<open>Sum(value)\<close> appends the MAC of the empty message to the id bytes. At
  id \<open>a\<close> and secret \<open>k\<close> the signed value is the hex of \<open>a\<close>, the hex of the MAC of the
  empty message, the separator and the id, which is not what the claim describes.
\<close>

theorem SignString_a_k_not_hmac_of_id:
  "SignString ''a'' ''k'' = ''61'' @ hex (hmac_sha1 ''k'' '''') @ ''----a''
   \<and> SignString ''a'' ''k'' \<noteq> hex (hmac_sha1 ''k'' ''a'') @ ''----'' @ ''a''"
proof
  show a: "SignString ''a'' ''k'' = ''61'' @ hex (hmac_sha1 ''k'' '''') @ ''----a''"
    by (simp add: SignString_def hmac_Sum_def hmac_New_def hex_append)
       (simp add: hex_def hex_byte_def hex_digit_def)
  have "length (SignString ''a'' ''k'') = 47"
    by (simp add: length_SignString)
  moreover have "length (hex (hmac_sha1 ''k'' ''a'') @ ''----'' @ ''a'') = 45"
    by (simp add: length_hex length_hmac_sha1)
  ultimately show "SignString ''a'' ''k'' \<noteq> hex (hmac_sha1 ''k'' ''a'') @ ''----'' @ ''a''"
    by auto
qed

text \<open>
  A consequence of the same defect: the MAC part of one signed value signs every id, so a
  signed value for any id \<open>x\<close> is built from a signed value for \<open>v\<close> without the secret.
\<close>

lemma signed_value_forgeable:
  "ValidateSignedString
     (hex x @ take 40 (drop (2 * length v) (SignString v k)) @ ''----'' @ x) k = Inr (x, None)"
proof -
  have "hex x @ take 40 (drop (2 * length v) (SignString v k)) @ ''----'' @ x = SignString x k"
    by (simp add: SignString_def hmac_Sum_def hmac_New_def hex_append length_hex length_hmac_sha1)
  then show ?thesis by (simp add: ValidateSignedString_SignString)
qed

text \<open>
  C5. Validating a freshly signed value with the same secret returns the id and no error;
  and replacing any single character of a signed value by a different one makes validation
  fail: it returns the tamper error, or panics when no separator is left.
\<close>

theorem sign_validate_roundtrip_and_tamper:
  "ValidateSignedString (SignString v k) k = Inr (v, None)
   \<and> (i < length (SignString v k) \<and> c \<noteq> SignString v k ! i \<longrightarrow>
        ValidateSignedString ((SignString v k)[i := c]) k = Inl (IndexOutOfRange 1 1)
      \<or> ValidateSignedString ((SignString v k)[i := c]) k = Inr ('''', Some ''data is tampered''))"
proof (intro conjI impI)
  show "ValidateSignedString (SignString v k) k = Inr (v, None)"
    by (rule ValidateSignedString_SignString)
next
  assume a: "i < length (SignString v k) \<and> c \<noteq> SignString v k ! i"
  let ?t = "(SignString v k)[i := c]"
  have "\<not> (\<exists>x. ValidateSignedString ?t k = Inr (x, None))"
  proof
    assume "\<exists>x. ValidateSignedString ?t k = Inr (x, None)"
    then obtain x where "ValidateSignedString ?t k = Inr (x, None)" ..
    then have "?t = SignString x k" by (rule validate_sound)
    then have "SignString x k = ?t" by (rule sym)
    with a show False using SignString_single_change by blast
  qed
  with validate_cases[of ?t k]
  show "ValidateSignedString ?t k = Inl (IndexOutOfRange 1 1)
      \<or> ValidateSignedString ?t k = Inr ('''', Some ''data is tampered'')"
    by blast
qed

theorem sign_validate_roundtrip_and_tamper_witness:
  "ValidateSignedString (SignString ''a'' ''k'') ''k'' = Inr (''a'', None)
   \<and> 0 < length (SignString ''a'' ''k'')
   \<and> CHR ''x'' \<noteq> SignString ''a'' ''k'' ! 0
   \<and> (ValidateSignedString ((SignString ''a'' ''k'')[0 := CHR ''x'']) ''k''
         = Inl (IndexOutOfRange 1 1)
      \<or> ValidateSignedString ((SignString ''a'' ''k'')[0 := CHR ''x'']) ''k''
         = Inr ('''', Some ''data is tampered''))"
proof -
  have l: "0 < length (SignString ''a'' ''k'')"
    by (simp add: length_SignString)
  have "SignString ''a'' ''k'' ! 0 = CHR ''6''"
    by (simp add: SignString_def hmac_Sum_def hmac_New_def hex_append)
       (simp add: hex_def hex_byte_def hex_digit_def)
  then have n: "CHR ''x'' \<noteq> SignString ''a'' ''k'' ! 0" by simp
  show ?thesis
    using sign_validate_roundtrip_and_tamper[of "''a''" "''k''" 0 "CHR ''x''"] l n by blast
qed

text \<open>
  Which of the two it is depends on the place: a change inside the separator of a signed
  value whose id holds no separator leaves a single part, and validation panics.
\<close>

lemma tampered_separator_panics:
  "ValidateSignedString ((SignString ''a'' ''k'')[42 := CHR ''x'']) ''k'' = Inl (IndexOutOfRange 1 1)"
proof -
  let ?h = "hex (hmac_Sum (hmac_New ''k'') ''a'')"
  have l: "length ?h = 42"
    by (simp add: length_hex hmac_Sum_def length_hmac_sha1)
  have "(SignString ''a'' ''k'')[42 := CHR ''x''] = ?h @ ''x---a''"
    using l by (simp add: SignString_def list_update_append)
  moreover have "Index (?h @ ''x---a'') ''----'' = None"
    using Index_skip[OF hex_no_dash, of "hmac_Sum (hmac_New ''k'') ''a''" "''x---a''" "''---''"]
    by simp
  ultimately show ?thesis
    by (simp add: ValidateSignedString_def SplitN2_def index_def)
qed

text \<open>
  C10. \<open>ValidateSignedString\<close> is not total: on every value that does not contain the
  separator \<open>----\<close> (the empty string is one) the split has a single part, and reading the
  id part \<open>parts[1]\<close> panics with index out of range instead of returning the tamper error.
\<close>

theorem ValidateSignedString_without_separator_panics:
  "(\<nexists>p q. value = p @ ''----'' @ q) \<Longrightarrow>
   ValidateSignedString value key = Inl (IndexOutOfRange 1 1)"
proof -
  assume a: "\<nexists>p q. value = p @ ''----'' @ q"
  have "Index value ''----'' = None"
  proof (cases "Index value ''----''")
    case (Some m)
    from Index_Some[OF this] a show ?thesis by blast
  qed simp
  then show ?thesis by (simp add: ValidateSignedString_def SplitN2_def index_def)
qed

theorem ValidateSignedString_without_separator_panics_witness:
  "(\<nexists>p q. '''' = p @ ''----'' @ q)
   \<and> ValidateSignedString '''' ''secret'' = Inl (IndexOutOfRange 1 1)"
  using ValidateSignedString_without_separator_panics[of "''''" "''secret''"] by simp

section \<open>Properties of sessions\<close>

subsection \<open>Flash maps and the sweep\<close>

lemma flash_of_AddFlash:
  assumes "flash_of sess = Inr f"
  shows "AddFlash sess c m = Inr (sess\<lparr>Dict := (Dict sess)(FlashKey \<mapsto> FlashMap (f(c \<mapsto> slice_at f c @ [m])))\<rparr>)"
proof (cases "f c")
  case None
  with assms show ?thesis by (simp add: AddFlash_def slice_at_def)
next
  case (Some a)
  with assms show ?thesis by (simp add: AddFlash_def slice_at_def)
qed

lemma flash_of_update:
  "flash_of (sess\<lparr>Dict := (Dict sess)(FlashKey \<mapsto> FlashMap g)\<rparr>) = Inr g"
  by (simp add: flash_of_def)

lemma Gc_delkeys_subset: "set (Gc_delkeys life clock i es) \<subseteq> fst ` set es"
proof (induction es arbitrary: i)
  case Nil
  then show ?case by simp
next
  case (Cons e es)
  obtain k v where e: "e = (k, v)" by (cases e)
  from Cons.IH[of "Suc i"] show ?case by (auto simp: e)
qed

lemma Gc_delkeys_mem:
  "distinct (map fst es) \<Longrightarrow> j < length es \<Longrightarrow>
   (fst (es ! j) \<in> set (Gc_delkeys life clock i es))
     = (life < Sub (clock (i + j)) (LastAccessTime (snd (es ! j))))"
proof (induction es arbitrary: i j)
  case Nil
  then show ?case by simp
next
  case (Cons e es)
  obtain k v where e: "e = (k, v)" by (cases e)
  from Cons.prems have d: "distinct (map fst es)" and kn: "k \<notin> fst ` set es"
    by (simp_all add: e)
  have rest: "k \<notin> set (Gc_delkeys life clock (Suc i) es)"
    using Gc_delkeys_subset kn by blast
  show ?case
  proof (cases j)
    case 0
    then show ?thesis using rest by (simp add: e)
  next
    case (Suc j')
    with Cons.prems have j': "j' < length es" by simp
    then have "fst (es ! j') \<in> fst ` set es" by simp
    with kn have ne: "fst (es ! j') \<noteq> k" by metis
    from Cons.IH[OF d j', of "Suc i"] ne show ?thesis
      by (simp add: e Suc)
  qed
qed

lemma store_foldl_Delete:
  "store (foldl Delete ms ks) = (\<lambda>k. if k \<in> set ks then None else store ms k)"
proof (induction ks arbitrary: ms)
  case Nil
  then show ?case by simp
next
  case (Cons a ks)
  show ?case unfolding foldl_Cons Cons.IH by (auto simp: Delete_def)
qed

subsection \<open>Claims about the session store and flash messages\<close>

text \<open>
  C8. After one sweep of \<open>Gc\<close>, a session of the store whose last-access age exceeds the
  lifetime is absent, and one whose age is within the lifetime is still present, unchanged.
  The age of a session is read when the sweep visits it: the loop calls \<open>time.Now()\<close> once
  per entry (\<open>clock j\<close> for the entry visited in iteration \<open>j\<close>). The sweep adds no session.
\<close>

theorem Gc_removes_exactly_the_expired:
  assumes "ranges (store ms) es" and "j < length es" and "es ! j = (k, v)"
  shows "store ms k = Some v
       \<and> (LifeTime ms < Sub (clock j) (LastAccessTime v) \<longrightarrow> store (Gc ms es clock) k = None)
       \<and> (Sub (clock j) (LastAccessTime v) \<le> LifeTime ms \<longrightarrow> store (Gc ms es clock) k = Some v)
       \<and> dom (store (Gc ms es clock)) \<subseteq> dom (store ms)"
proof -
  from assms have d: "distinct (map fst es)" and m: "map_of es = store ms"
    by (simp_all add: ranges_def)
  from assms(2,3) have "(k, v) \<in> set es" by (metis nth_mem)
  then have "map_of es k = Some v"
    using d by simp
  with m have s: "store ms k = Some v" by simp
  have mem: "(k \<in> set (Gc_delkeys (LifeTime ms) clock 0 es))
           = (LifeTime ms < Sub (clock j) (LastAccessTime v))"
    using Gc_delkeys_mem[OF d assms(2), of "LifeTime ms" clock 0] assms(3) by simp
  have gone: "LifeTime ms < Sub (clock j) (LastAccessTime v) \<longrightarrow> store (Gc ms es clock) k = None"
    using mem by (simp add: Gc_def store_foldl_Delete)
  have kept: "Sub (clock j) (LastAccessTime v) \<le> LifeTime ms \<longrightarrow> store (Gc ms es clock) k = Some v"
    using mem s by (simp add: Gc_def store_foldl_Delete)
  have sub: "dom (store (Gc ms es clock)) \<subseteq> dom (store ms)"
    by (auto simp: Gc_def store_foldl_Delete split: if_splits)
  from s gone kept sub show ?thesis by blast
qed

theorem Gc_removes_exactly_the_expired_witness:
  "ranges (map_of [(''old'', NewSession ''old'' 0), (''new'', NewSession ''new'' 95)])
          [(''old'', NewSession ''old'' 0), (''new'', NewSession ''new'' 95)]
   \<and> store (Gc \<lparr>LifeTime = 10,
                  store = map_of [(''old'', NewSession ''old'' 0), (''new'', NewSession ''new'' 95)]\<rparr>
               [(''old'', NewSession ''old'' 0), (''new'', NewSession ''new'' 95)]
               (\<lambda>i. 100)) ''old'' = None
   \<and> store (Gc \<lparr>LifeTime = 10,
                  store = map_of [(''old'', NewSession ''old'' 0), (''new'', NewSession ''new'' 95)]\<rparr>
               [(''old'', NewSession ''old'' 0), (''new'', NewSession ''new'' 95)]
               (\<lambda>i. 100)) ''new'' = Some (NewSession ''new'' 95)"
proof -
  let ?es = "[(''old'', NewSession ''old'' 0), (''new'', NewSession ''new'' 95)]"
  let ?ms = "\<lparr>LifeTime = 10, store = map_of ?es\<rparr>"
  have r: "ranges (store ?ms) ?es" by (simp add: ranges_def)
  have old: "LifeTime ?ms < Sub ((\<lambda>i. 100) (0::nat)) (LastAccessTime (NewSession ''old'' 0))"
    by (simp add: Sub_def NewSession_def minDuration_def maxDuration_def)
  have new: "Sub ((\<lambda>i. 100) (1::nat)) (LastAccessTime (NewSession ''new'' 95)) \<le> LifeTime ?ms"
    by (simp add: Sub_def NewSession_def minDuration_def maxDuration_def)
  have "store (Gc ?ms ?es (\<lambda>i. 100)) ''old'' = None"
    using Gc_removes_exactly_the_expired[OF r, of 0 "''old''" "NewSession ''old'' 0" "\<lambda>i. 100"] old
    by simp
  moreover have "store (Gc ?ms ?es (\<lambda>i. 100)) ''new'' = Some (NewSession ''new'' 95)"
    using Gc_removes_exactly_the_expired[OF r, of 1 "''new''" "NewSession ''new'' 95" "\<lambda>i. 100"] new
    by simp
  ultimately show ?thesis using r by simp
qed

text \<open>
  C9. The claim is stated for every session. It fails on a session that already holds a
  flash message: \<open>AddFlash\<close> appends to what is there, and \<open>Flashes\<close> returns it all. Here
  the session holds \<open>z\<close> under \<open>info\<close> before the two calls.
\<close>

theorem Flashes_returns_pending_messages_too:
  "AddFlash ((NewSession ''s'' 0)\<lparr>Dict := [FlashKey \<mapsto> FlashMap [''info'' \<mapsto> [''z'']]]\<rparr>)
            ''info'' ''a''
     = Inr ((NewSession ''s'' 0)\<lparr>Dict := [FlashKey \<mapsto> FlashMap [''info'' \<mapsto> [''z'', ''a'']]]\<rparr>)
   \<and> AddFlash ((NewSession ''s'' 0)\<lparr>Dict := [FlashKey \<mapsto> FlashMap [''info'' \<mapsto> [''z'', ''a'']]]\<rparr>)
            ''info'' ''b''
     = Inr ((NewSession ''s'' 0)\<lparr>Dict := [FlashKey \<mapsto> FlashMap [''info'' \<mapsto> [''z'', ''a'', ''b'']]]\<rparr>)
   \<and> Flashes ((NewSession ''s'' 0)\<lparr>Dict := [FlashKey \<mapsto> FlashMap [''info'' \<mapsto> [''z'', ''a'', ''b'']]]\<rparr>)
     = Inr ((NewSession ''s'' 0)\<lparr>Dict := [FlashKey \<mapsto> FlashMap Map.empty]\<rparr>,
            [''info'' \<mapsto> [''z'', ''a'', ''b'']])
   \<and> [''info'' \<mapsto> [''z'', ''a'', ''b'']] \<noteq> [''info'' \<mapsto> [''a'', ''b'']]"
proof -
  have ne: "[''info'' \<mapsto> [''z'', ''a'', ''b'']] \<noteq> [''info'' \<mapsto> [''a'', ''b'']]"
  proof
    assume "[''info'' \<mapsto> [''z'', ''a'', ''b'']] = [''info'' \<mapsto> [''a'', ''b'']]"
    then have "[''info'' \<mapsto> [''z'', ''a'', ''b'']] ''info'' = [''info'' \<mapsto> [''a'', ''b'']] ''info''"
      by (rule fun_cong)
    then show False by simp
  qed
  then show ?thesis
    by (simp add: AddFlash_def Flashes_def flash_of_def slice_at_def NewSession_def)
qed

text \<open>
  C9, amended. For every session whose flash map is empty (a session fresh from
  \<open>NewSession\<close>, or just read with \<open>Flashes\<close>), after \<open>AddFlash("info","a")\<close> and
  \<open>AddFlash("info","b")\<close> a call to \<open>Flashes\<close> returns exactly \<open>{"info": ["a","b"]}\<close>
  and empties the flash map, so the next call returns the empty map. For a session with
  any flash map \<open>f\<close>, the first call returns \<open>f\<close> with \<open>a\<close> and \<open>b\<close> appended under \<open>info\<close>.
\<close>

theorem AddFlash_twice_then_Flashes:
  assumes "flash_of sess = Inr f"
  shows "\<exists>s1 s2 s3 s4.
           AddFlash sess ''info'' ''a'' = Inr s1 \<and> AddFlash s1 ''info'' ''b'' = Inr s2
         \<and> Flashes s2 = Inr (s3, f(''info'' \<mapsto> slice_at f ''info'' @ [''a'', ''b'']))
         \<and> (f = Map.empty \<longrightarrow> Flashes s2 = Inr (s3, [''info'' \<mapsto> [''a'', ''b'']]))
         \<and> flash_of s3 = Inr Map.empty
         \<and> Flashes s3 = Inr (s4, Map.empty)"
proof -
  let ?f1 = "f(''info'' \<mapsto> slice_at f ''info'' @ [''a''])"
  let ?s1 = "sess\<lparr>Dict := (Dict sess)(FlashKey \<mapsto> FlashMap ?f1)\<rparr>"
  have 1: "AddFlash sess ''info'' ''a'' = Inr ?s1"
    using assms by (rule flash_of_AddFlash)
  have f1: "flash_of ?s1 = Inr ?f1" by (rule flash_of_update)
  let ?f2 = "?f1(''info'' \<mapsto> slice_at ?f1 ''info'' @ [''b''])"
  let ?s2 = "?s1\<lparr>Dict := (Dict ?s1)(FlashKey \<mapsto> FlashMap ?f2)\<rparr>"
  have 2: "AddFlash ?s1 ''info'' ''b'' = Inr ?s2"
    using f1 by (rule flash_of_AddFlash)
  have f2: "flash_of ?s2 = Inr ?f2" by (rule flash_of_update)
  have e: "?f2 = f(''info'' \<mapsto> slice_at f ''info'' @ [''a'', ''b''])"
    by (simp add: slice_at_def)
  let ?s3 = "?s2\<lparr>Dict := (Dict ?s2)(FlashKey \<mapsto> FlashMap Map.empty)\<rparr>"
  have 3: "Flashes ?s2 = Inr (?s3, f(''info'' \<mapsto> slice_at f ''info'' @ [''a'', ''b'']))"
    using f2 e by (simp add: Flashes_def)
  have 5: "f = Map.empty \<longrightarrow> Flashes ?s2 = Inr (?s3, [''info'' \<mapsto> [''a'', ''b'']])"
  proof
    assume "f = Map.empty"
    then have "f(''info'' \<mapsto> slice_at f ''info'' @ [''a'', ''b'']) = [''info'' \<mapsto> [''a'', ''b'']]"
      by (simp add: slice_at_def)
    with 3 show "Flashes ?s2 = Inr (?s3, [''info'' \<mapsto> [''a'', ''b'']])"
      by simp
  qed
  have f3: "flash_of ?s3 = Inr Map.empty" by (rule flash_of_update)
  then have 4: "Flashes ?s3
      = Inr (?s3\<lparr>Dict := (Dict ?s3)(FlashKey \<mapsto> FlashMap Map.empty)\<rparr>, Map.empty)"
    by (simp add: Flashes_def)
  from 1 2 3 5 f3 4 show ?thesis by blast
qed

theorem AddFlash_twice_then_Flashes_witness:
  "flash_of (NewSession ''s'' 0) = Inr Map.empty
   \<and> (\<exists>s1 s2 s3 s4.
           AddFlash (NewSession ''s'' 0) ''info'' ''a'' = Inr s1
         \<and> AddFlash s1 ''info'' ''b'' = Inr s2
         \<and> Flashes s2 = Inr (s3, [''info'' \<mapsto> [''a'', ''b'']])
         \<and> Flashes s3 = Inr (s4, Map.empty))"
proof -
  have h: "flash_of (NewSession ''s'' 0) = Inr Map.empty"
    by (simp add: flash_of_def NewSession_def)
  from AddFlash_twice_then_Flashes[OF h] h show ?thesis by blast
qed

section \<open>Properties of the middleware chain\<close>

lemma body_w_Write: "body (w_Write b v) = body v @ [b]"
  by (simp add: w_Write_def w_WriteHeader_def Let_def)

text \<open>
  C3. Three middlewares, the \<open>N\<close>-th writing \<open>preN\<close>, calling \<open>DoNext\<close> and writing \<open>postN\<close>,
  around a handler that writes \<open>h\<close>: running the chain that \<open>NewRoute\<close> compiles, for one
  request, does not panic and appends to the response exactly
  \<open>pre1 pre2 pre3 h post3 post2 post1\<close>.
\<close>

theorem onion_order:
  "fst (Route_ServeHTTP
          (NewRoute MustCompile n p m s [Write h]
             [[Write pre1, Next, Write post1],
              [Write pre2, Next, Write post2],
              [Write pre3, Next, Write post3]]) x) = None
   \<and> body (w (snd (Route_ServeHTTP
          (NewRoute MustCompile n p m s [Write h]
             [[Write pre1, Next, Write post1],
              [Write pre2, Next, Write post2],
              [Write pre3, Next, Write post3]]) x)))
       = body (w x) @ [pre1, pre2, pre3, h, post3, post2, post1]"
  by (simp add: Route_ServeHTTP_def NewRoute_def Copy_def NewMiddlewareChain_def
        advance_def index_def NopMiddleware_def body_w_Write)

lemma chain_inv_pop: "chain_inv ([] # ks) x \<Longrightarrow> chain_inv ks x"
  by (cases ks) (auto simp: chain_inv_def)

lemma chain_inv_Write: "chain_inv ((Write b # as) # ks) x \<Longrightarrow> chain_inv (as # ks) (x\<lparr>w := v\<rparr>)"
  by (auto simp: chain_inv_def calls_Next_def)

lemma chain_inv_WriteHeader: "chain_inv ((WriteHeader st # as) # ks) x \<Longrightarrow> chain_inv (as # ks) (x\<lparr>w := v\<rparr>)"
  by (auto simp: chain_inv_def calls_Next_def)

lemma chain_inv_Next:
  assumes "chain_inv ((Next # as) # ks) x"
  shows "\<exists>h x'. advance x = (x', Inr h) \<and> chain_inv (h # as # ks) x'"
proof -
  from assms obtain mc where mc: "ctx_Chain (ctx x) = Some mc" "- 1 \<le> sp mc" "middlewares mc \<noteq> []"
    and le: "\<forall>h\<in>set (middlewares mc). calls_Next h \<le> 1"
    and lst: "calls_Next (last (middlewares mc)) = 0"
    and as: "calls_Next as = 0" and ks: "\<forall>k\<in>set ks. calls_Next k = 0"
    and rng: "sp mc + 1 < int (length (middlewares mc))"
    by (auto simp: chain_inv_def calls_Next_def)
  let ?i = "nat (sp mc + 1)"
  let ?h = "middlewares mc ! ?i"
  let ?x' = "x\<lparr>ctx := (ctx x)\<lparr>ctx_Chain := Some (mc\<lparr>sp := sp mc + 1\<rparr>)\<rparr>\<rparr>"
  from mc rng have i: "?i < length (middlewares mc)" by simp
  have adv: "advance x = (?x', Inr ?h)"
    using mc rng by (simp add: advance_def index_def Let_def)
  from i have hm: "?h \<in> set (middlewares mc)" by simp
  with le have h1: "calls_Next ?h \<le> 1" by blast
  have "calls_Next ?h = 1 \<longrightarrow> sp mc + 1 + 1 < int (length (middlewares mc))"
  proof
    assume c: "calls_Next ?h = 1"
    show "sp mc + 1 + 1 < int (length (middlewares mc))"
    proof (rule ccontr)
      assume "\<not> sp mc + 1 + 1 < int (length (middlewares mc))"
      with i mc have "?i = length (middlewares mc) - 1" by linarith
      then have "?h = last (middlewares mc)"
        using mc(3) by (simp add: last_conv_nth)
      with lst c show False by simp
    qed
  qed
  with mc le lst as ks h1 have "chain_inv (?h # as # ks) ?x'"
    by (simp add: chain_inv_def)
  with adv show ?thesis by blast
qed

lemma run_within_chain:
  "chain_inv ks x \<Longrightarrow> fst (run ks x) \<noteq> Some (IndexOutOfRange i n)"
proof (induction ks x rule: run.induct)
  case (1 x)
  then show ?case by simp
next
  case (2 ks x)
  then show ?case using chain_inv_pop by simp
next
  case (3 b as ks x)
  then show ?case using chain_inv_Write by simp
next
  case (4 st as ks x)
  then show ?case using chain_inv_WriteHeader by simp
next
  case (5 v as ks x)
  then show ?case by simp
next
  case (6 as ks x)
  from chain_inv_Next[OF 6(2)] obtain h x' where a: "advance x = (x', Inr h)"
    and inv: "chain_inv (h # as # ks) x'" by blast
  from 6(1)[OF a[symmetric] refl inv] a show ?case by simp
qed

lemma NewRoute_chain:
  "Chain (NewRoute MC n p m s handler mws) = \<lparr>middlewares = mws @ [handler, NopMiddleware], sp = - 1\<rparr>"
  by (simp add: NewRoute_def NewMiddlewareChain_def)

lemma calls_Next_Nop: "calls_Next NopMiddleware = 0"
  by (simp add: calls_Next_def NopMiddleware_def)

text \<open>
  C7. The chain that \<open>NewRoute\<close> compiles ends in the no-op sentinel. When the handler, the
  last real link, is the running link (the cursor is at its index) and calls \<open>DoNext\<close>, the
  cursor moves to the sentinel, which is in range and does nothing: the handler goes on
  with what follows the call. And when no link calls \<open>DoNext\<close> more than once, no run of
  the chain indexes past the end of the handler list.
\<close>

theorem chain_ends_in_sentinel:
  "last (middlewares (Chain (NewRoute MC n p m s handler mws))) = NopMiddleware
   \<and> (ctx_Chain (ctx x) = Some ((Chain (NewRoute MC n p m s handler mws))\<lparr>sp := int (length mws)\<rparr>) \<longrightarrow>
        run ((Next # as) # ks) x
          = run (as # ks)
              (x\<lparr>ctx := (ctx x)\<lparr>ctx_Chain :=
                   Some ((Chain (NewRoute MC n p m s handler mws))\<lparr>sp := int (length mws) + 1\<rparr>)\<rparr>\<rparr>))
   \<and> ((\<forall>h\<in>set (mws @ [handler]). calls_Next h \<le> 1) \<longrightarrow>
        (\<forall>i k. fst (Route_ServeHTTP (NewRoute MC n p m s handler mws) x) \<noteq> Some (IndexOutOfRange i k)))"
proof (intro conjI impI allI)
  show "last (middlewares (Chain (NewRoute MC n p m s handler mws))) = NopMiddleware"
    by (simp add: NewRoute_chain)
next
  assume a: "ctx_Chain (ctx x) = Some ((Chain (NewRoute MC n p m s handler mws))\<lparr>sp := int (length mws)\<rparr>)"
  let ?x' = "x\<lparr>ctx := (ctx x)\<lparr>ctx_Chain :=
                   Some ((Chain (NewRoute MC n p m s handler mws))\<lparr>sp := int (length mws) + 1\<rparr>)\<rparr>\<rparr>"
  have "nat (int (length mws) + 1) = Suc (length mws)" by simp
  then have "advance x = (?x', Inr NopMiddleware)"
    using a by (simp add: advance_def index_def NewRoute_chain nth_append)
  then show "run ((Next # as) # ks) x = run (as # ks) ?x'"
    by (simp add: NopMiddleware_def)
next
  fix i k
  assume a: "\<forall>h\<in>set (mws @ [handler]). calls_Next h \<le> 1"
  let ?x0 = "x\<lparr>ctx := (ctx x)\<lparr>ctx_Chain := Some (Copy (Chain (NewRoute MC n p m s handler mws)))\<rparr>\<rparr>"
  have "chain_inv [[Next]] ?x0"
    using a by (auto simp: chain_inv_def Copy_def NewMiddlewareChain_def NewRoute_chain calls_Next_Nop)
       (simp add: calls_Next_def)
  then show "fst (Route_ServeHTTP (NewRoute MC n p m s handler mws) x) \<noteq> Some (IndexOutOfRange i k)"
    unfolding Route_ServeHTTP_def by (rule run_within_chain)
qed

theorem chain_ends_in_sentinel_witness:
  "last (middlewares (Chain (NewRoute (\<lambda>e. anchored (map Lit ''/r'')) ''r'' ''/r'' ''GET'' False [Write ''H'', Next] [[Write ''a'', Next, Write ''b'']]))) = NopMiddleware
   \<and> ctx_Chain (ctx \<lparr>w = NewResponseWriter,
                      ctx = NewContext\<lparr>ctx_Chain := Some ((Chain (NewRoute (\<lambda>e. anchored (map Lit ''/r'')) ''r'' ''/r'' ''GET'' False [Write ''H'', Next] [[Write ''a'', Next, Write ''b'']]))\<lparr>sp := int (length [[Write ''a'', Next, Write ''b'']])\<rparr>)\<rparr>\<rparr>)
       = Some ((Chain (NewRoute (\<lambda>e. anchored (map Lit ''/r'')) ''r'' ''/r'' ''GET'' False [Write ''H'', Next] [[Write ''a'', Next, Write ''b'']]))\<lparr>sp := int (length [[Write ''a'', Next, Write ''b'']])\<rparr>)
   \<and> run [[Next, Write ''end'']]
         \<lparr>w = NewResponseWriter,
            ctx = NewContext\<lparr>ctx_Chain := Some ((Chain (NewRoute (\<lambda>e. anchored (map Lit ''/r'')) ''r'' ''/r'' ''GET'' False [Write ''H'', Next] [[Write ''a'', Next, Write ''b'']]))\<lparr>sp := int (length [[Write ''a'', Next, Write ''b'']])\<rparr>)\<rparr>\<rparr>
       = (None,
          \<lparr>w = w_Write ''end'' NewResponseWriter,
             ctx = NewContext\<lparr>ctx_Chain := Some ((Chain (NewRoute (\<lambda>e. anchored (map Lit ''/r'')) ''r'' ''/r'' ''GET'' False [Write ''H'', Next] [[Write ''a'', Next, Write ''b'']]))\<lparr>sp := 2\<rparr>)\<rparr>\<rparr>)
   \<and> (\<forall>i k. fst (Route_ServeHTTP (NewRoute (\<lambda>e. anchored (map Lit ''/r'')) ''r'' ''/r'' ''GET'' False [Write ''H'', Next] [[Write ''a'', Next, Write ''b'']]) \<lparr>w = NewResponseWriter, ctx = NewContext\<rparr>)
              \<noteq> Some (IndexOutOfRange i k))"
proof -
  let ?X = "\<lparr>w = NewResponseWriter,
             ctx = NewContext\<lparr>ctx_Chain := Some ((Chain (NewRoute (\<lambda>e. anchored (map Lit ''/r'')) ''r'' ''/r'' ''GET'' False [Write ''H'', Next] [[Write ''a'', Next, Write ''b'']]))\<lparr>sp := int (length [[Write ''a'', Next, Write ''b'']])\<rparr>)\<rparr>\<rparr>"
  note T = chain_ends_in_sentinel[of "\<lambda>e. anchored (map Lit ''/r'')" "''r''" "''/r''" "''GET''" False "[Write ''H'', Next]"
          "[[Write ''a'', Next, Write ''b'']]" _ "[Write ''end'']" "[]"]
  have h2: "ctx_Chain (ctx ?X) = Some ((Chain (NewRoute (\<lambda>e. anchored (map Lit ''/r'')) ''r'' ''/r'' ''GET'' False [Write ''H'', Next] [[Write ''a'', Next, Write ''b'']]))\<lparr>sp := int (length [[Write ''a'', Next, Write ''b'']])\<rparr>)"
    by simp
  have h3: "\<forall>h\<in>set ([[Write ''a'', Next, Write ''b'']] @ [[Write ''H'', Next]]). calls_Next h \<le> 1"
    by (simp add: calls_Next_def)
  from T[of ?X] h2 have "run [[Next, Write ''end'']] ?X
       = run [[Write ''end'']]
           (?X\<lparr>ctx := (ctx ?X)\<lparr>ctx_Chain := Some ((Chain (NewRoute (\<lambda>e. anchored (map Lit ''/r'')) ''r'' ''/r'' ''GET'' False [Write ''H'', Next] [[Write ''a'', Next, Write ''b'']]))\<lparr>sp := int (length [[Write ''a'', Next, Write ''b'']]) + 1\<rparr>)\<rparr>\<rparr>)"
    by blast
  also have "\<dots> = (None,
          \<lparr>w = w_Write ''end'' NewResponseWriter,
             ctx = NewContext\<lparr>ctx_Chain := Some ((Chain (NewRoute (\<lambda>e. anchored (map Lit ''/r'')) ''r'' ''/r'' ''GET'' False [Write ''H'', Next] [[Write ''a'', Next, Write ''b'']]))\<lparr>sp := 2\<rparr>)\<rparr>\<rparr>)"
    by simp
  finally have b: "run [[Next, Write ''end'']] ?X = (None,
          \<lparr>w = w_Write ''end'' NewResponseWriter,
             ctx = NewContext\<lparr>ctx_Chain := Some ((Chain (NewRoute (\<lambda>e. anchored (map Lit ''/r'')) ''r'' ''/r'' ''GET'' False [Write ''H'', Next] [[Write ''a'', Next, Write ''b'']]))\<lparr>sp := 2\<rparr>)\<rparr>\<rparr>)" .
  from T[of "\<lparr>w = NewResponseWriter, ctx = NewContext\<rparr>"] h3
  have c: "\<forall>i k. fst (Route_ServeHTTP (NewRoute (\<lambda>e. anchored (map Lit ''/r'')) ''r'' ''/r'' ''GET'' False [Write ''H'', Next] [[Write ''a'', Next, Write ''b'']]) \<lparr>w = NewResponseWriter, ctx = NewContext\<rparr>)
              \<noteq> Some (IndexOutOfRange i k)"
    by blast
  from T[of ?X] have a: "last (middlewares (Chain (NewRoute (\<lambda>e. anchored (map Lit ''/r'')) ''r'' ''/r'' ''GET'' False [Write ''H'', Next] [[Write ''a'', Next, Write ''b'']]))) = NopMiddleware" by blast
  from a h2 b c show ?thesis by blast
qed

text \<open>
  The sentinel absorbs one call only: a handler that calls \<open>DoNext\<close> twice runs past it.
\<close>

lemma handler_second_DoNext_overruns:
  "fst (Route_ServeHTTP (NewRoute MC n p m s [Next, Next] []) \<lparr>w = NewResponseWriter, ctx = NewContext\<rparr>)
     = Some (IndexOutOfRange 2 2)"
  by (simp add: Route_ServeHTTP_def NewRoute_chain Copy_def NewMiddlewareChain_def advance_def index_def
        NopMiddleware_def)

section \<open>Properties of reverse URLs\<close>

lemma replace_placeholders_cases:
  "counter + 1 \<le> int (length args) \<Longrightarrow> - 1 \<le> counter \<Longrightarrow>
   (nat (counter + 1) + placeholders s \<le> length args
      \<and> (\<exists>u. replace_placeholders args counter s = Inr u
             \<and> replace_placeholders (args @ extra) counter s = Inr u))
   \<or> (length args < nat (counter + 1) + placeholders s
      \<and> replace_placeholders args counter s = Inl (IndexOutOfRange (int (length args)) (length args)))"
proof (induction args counter s rule: replace_placeholders.induct)
  case (1 args counter)
  then show ?case by (simp add: placeholders_def)
next
  case (2 args counter c cs)
  show ?case
  proof (cases "match_items placeholder_re (c # cs)")
    case None
    then have p: "placeholders (c # cs) = placeholders cs"
      by (simp add: placeholders_def)
    from 2(1)[OF None 2(3) 2(4)] show ?thesis
      unfolding p using None by auto
  next
    case (Some a)
    obtain n gs where a: "a = (n, gs)" by (cases a)
    have p: "placeholders (c # cs) = Suc (placeholders (drop (n - 1) cs))"
      using Some a by (simp add: placeholders_def)
    show ?thesis
    proof (cases "counter + 1 < int (length args)")
      case True
      with 2(4) have lt: "nat (counter + 1) < length args" by linarith
      have ix: "index args (counter + 1) = Inr (args ! nat (counter + 1))"
        using True 2(4) by (simp add: index_def)
      have ix': "index (args @ extra) (counter + 1) = Inr (args ! nat (counter + 1))"
        using True 2(4) lt by (simp add: index_def nth_append)
      from True have c1: "counter + 1 + 1 \<le> int (length args)" by simp
      from 2(4) have c2: "- 1 \<le> counter + 1" by simp
      have n1: "nat (counter + 1 + 1) = Suc (nat (counter + 1))" using 2(4) by simp
      from 2(2)[OF Some[unfolded a] refl ix c1 c2] show ?thesis
        unfolding p n1 using Some a ix ix' by auto
    next
      case False
      with 2(3) have e: "counter + 1 = int (length args)" by simp
      then have ix: "index args (counter + 1) = Inl (IndexOutOfRange (int (length args)) (length args))"
        by (simp add: index_def)
      show ?thesis
        unfolding p using Some a ix e by simp
    qed
  qed
qed

text \<open>
  C6, amended. \<open>BuildUrl\<close> panics when the route name is not registered, and panics (index
  out of range) when it is given fewer arguments than its expression finds placeholders in
  the raw pattern. With at least as many arguments it returns a URL, and the arguments
  beyond the placeholders are ignored.
\<close>

theorem BuildUrl_panics_or_ignores_surplus:
  "(Routes app n = None \<longrightarrow>
      BuildUrl app n args = Inl (PanicValue (''Route '' @ [CHR 0x27] @ n @ [CHR 0x27] @ '' not defined.'')))
   \<and> (Routes app n = Some route \<and> length args < placeholders (PatternString route) \<longrightarrow>
      BuildUrl app n args = Inl (IndexOutOfRange (int (length args)) (length args)))
   \<and> (Routes app n = Some route \<and> placeholders (PatternString route) \<le> length args \<longrightarrow>
      (\<exists>url. BuildUrl app n args = Inr url \<and> BuildUrl app n (args @ extra) = Inr url))"
proof -
  have c: "- 1 + 1 \<le> int (length args)" "- 1 \<le> (- 1 :: int)" by simp_all
  note L = replace_placeholders_cases[OF c, of "PatternString route" extra]
  show ?thesis
    using L by (auto simp: BuildUrl_def)
qed

text \<open>
  C6. The claim: an argument count that differs from the number of named parameters fails
  loudly. The route \<open>p1\<close> of \<open>TestAppBuildUrl\<close> has two named parameters; with three
  arguments \<open>BuildUrl\<close> returns a URL and drops the third.
\<close>

theorem BuildUrl_surplus_argument_ignored:
  "PathParamNames route_p1 = [''param1'', ''param2'']
   \<and> Routes app_BuildUrl ''p1'' = Some route_p1
   \<and> BuildUrl app_BuildUrl ''p1'' [''aaa'', ''bbb'', ''ccc''] = Inr ''/p1/aaa/bbb''"
  by (simp add: app_BuildUrl_def route_p1_def NewRoute_def BuildUrl_def param_name_re_def
        placeholder_re_def index_def)

theorem BuildUrl_panics_or_ignores_surplus_witness:
  "Routes app_BuildUrl ''p9'' = None
   \<and> BuildUrl app_BuildUrl ''p9'' [''aaa'', ''bbb'']
       = Inl (PanicValue (''Route '' @ [CHR 0x27] @ ''p9'' @ [CHR 0x27] @ '' not defined.''))
   \<and> Routes app_BuildUrl ''p1'' = Some route_p1
   \<and> placeholders (PatternString route_p1) = 2
   \<and> BuildUrl app_BuildUrl ''p1'' [''aaa''] = Inl (IndexOutOfRange 1 1)
   \<and> (\<exists>url. BuildUrl app_BuildUrl ''p1'' [''aaa'', ''bbb''] = Inr url
            \<and> BuildUrl app_BuildUrl ''p1'' ([''aaa'', ''bbb''] @ [''ccc'']) = Inr url)"
proof -
  have n: "Routes app_BuildUrl ''p9'' = None" and r: "Routes app_BuildUrl ''p1'' = Some route_p1"
    by (simp_all add: app_BuildUrl_def)
  have p: "placeholders (PatternString route_p1) = 2"
    by (simp add: route_p1_def NewRoute_def placeholders_def placeholder_re_def)
  from BuildUrl_panics_or_ignores_surplus[of app_BuildUrl "''p9''" "[''aaa'', ''bbb'']"] n
  have 1: "BuildUrl app_BuildUrl ''p9'' [''aaa'', ''bbb'']
       = Inl (PanicValue (''Route '' @ [CHR 0x27] @ ''p9'' @ [CHR 0x27] @ '' not defined.''))"
    by blast
  from BuildUrl_panics_or_ignores_surplus[of app_BuildUrl "''p1''" "[''aaa'']" route_p1] r p
  have 2: "BuildUrl app_BuildUrl ''p1'' [''aaa''] = Inl (IndexOutOfRange 1 1)"
    by simp
  from BuildUrl_panics_or_ignores_surplus[of app_BuildUrl "''p1''" "[''aaa'', ''bbb'']" route_p1 "[''ccc'']"] r p
  have 3: "\<exists>url. BuildUrl app_BuildUrl ''p1'' [''aaa'', ''bbb''] = Inr url
            \<and> BuildUrl app_BuildUrl ''p1'' ([''aaa'', ''bbb''] @ [''ccc'']) = Inr url"
    by simp
  from n r p 1 2 3 show ?thesis by blast
qed

section \<open>Properties of dispatch\<close>

lemma ranges_mem: "ranges R es \<Longrightarrow> ((k, v) \<in> set es) = (R k = Some v)"
  by (auto simp: ranges_def)

lemma match_routes_single:
  "ctx_Route c = None \<Longrightarrow> route_matches U method path route \<Longrightarrow>
   match_routes U method path ((n, route) # post) c
     = (case add_PathParams (PathParamNames route) (Pattern route path) 0 c of
          (Some p, c') \<Rightarrow> (Some p, c')
        | (None, c') \<Rightarrow> (None, c'\<lparr>ctx_Route := Some route\<rparr>))"
  by (simp add: route_matches_def Let_def split: prod.splits option.splits)

lemma match_routes_skip:
  "ctx_Route c = None \<Longrightarrow> \<not> route_matches U method path route \<Longrightarrow>
   match_routes U method path ((n, route) # rest) c = match_routes U method path rest c"
  by (simp add: route_matches_def Let_def)

lemma match_routes_first:
  "ctx_Route c = None \<Longrightarrow> \<forall>e\<in>set pre. \<not> route_matches U method path (snd e) \<Longrightarrow>
   route_matches U method path route \<Longrightarrow>
   match_routes U method path (pre @ (n, route) # post) c = match_routes U method path [(n, route)] c"
proof (induction pre)
  case Nil
  then show ?case by (simp add: match_routes_single del: match_routes.simps)
next
  case (Cons e pre)
  obtain n' r' where e: "e = (n', r')" by (cases e)
  from Cons.prems have "\<not> route_matches U method path r'" by (simp add: e)
  with Cons show ?case by (simp add: e match_routes_skip del: match_routes.simps)
qed

lemma match_routes_none:
  "ctx_Route c = None \<Longrightarrow> \<forall>e\<in>set es. \<not> route_matches U method path (snd e) \<Longrightarrow>
   match_routes U method path es c = (None, c)"
proof (induction es)
  case Nil
  then show ?case by simp
next
  case (Cons e es)
  obtain n' r' where e: "e = (n', r')" by (cases e)
  from Cons.prems have "\<not> route_matches U method path r'" by (simp add: e)
  with Cons show ?case by (simp add: e match_routes_skip del: match_routes.simps)
qed

lemma match_routes_order_free:
  assumes r1: "ranges R es1" and r2: "ranges R es2" and c: "ctx_Route c = None"
    and u: "\<forall>n r n' r'. R n = Some r \<and> R n' = Some r' \<and> route_matches U method path r
               \<and> route_matches U method path r' \<longrightarrow> n = n'"
  shows "match_routes U method path es1 c = match_routes U method path es2 c"
proof (cases "\<exists>e\<in>set es1. route_matches U method path (snd e)")
  case True
  then obtain n r where nr: "(n, r) \<in> set es1" and m: "route_matches U method path r" by auto
  from nr r1 have R: "R n = Some r" by (simp add: ranges_mem)
  have only: "e = (n, r)" if "e \<in> set es" "ranges R es" "route_matches U method path (snd e)" for e es
  proof -
    obtain n' r' where e: "e = (n', r')" by (cases e)
    with that have R': "R n' = Some r'" by (simp add: ranges_mem)
    with R m that(3) u have "n = n'" by (simp add: e)
    with R R' e show ?thesis by simp
  qed
  have first: "match_routes U method path es c = match_routes U method path [(n, r)] c"
    if rg: "ranges R es" for es
  proof -
    from R rg have "(n, r) \<in> set es" by (simp add: ranges_mem)
    then obtain pre post where sp: "es = pre @ (n, r) # post" and np: "(n, r) \<notin> set pre"
      by (meson split_list_first)
    have "\<forall>e\<in>set pre. \<not> route_matches U method path (snd e)"
    proof
      fix e assume "e \<in> set pre"
      then have "e \<in> set es" "e \<noteq> (n, r)" using sp np by auto
      with only[OF _ rg] show "\<not> route_matches U method path (snd e)" by blast
    qed
    from match_routes_first[OF c this m] show ?thesis unfolding sp .
  qed
  from first[OF r1] first[OF r2] show ?thesis by simp
next
  case False
  then have n1: "\<forall>e\<in>set es1. \<not> route_matches U method path (snd e)" by blast
  have "set es2 = set es1"
    using r1 r2 by (auto simp: ranges_mem)
  with n1 have n2: "\<forall>e\<in>set es2. \<not> route_matches U method path (snd e)" by blast
  from match_routes_none[OF c n1] match_routes_none[OF c n2] show ?thesis by simp
qed

lemma advance_ctx:
  "advance x = (x', y) \<Longrightarrow>
   ctx_Route (ctx x') = ctx_Route (ctx x) \<and> StartedAt (ctx x') = StartedAt (ctx x)"
  by (auto simp: advance_def Let_def split: option.splits)

lemma run_ctx:
  "ctx_Route (ctx (snd (run ks x))) = ctx_Route (ctx x)
   \<and> StartedAt (ctx (snd (run ks x))) = StartedAt (ctx x)"
proof (induction ks x rule: run.induct)
  case (6 as ks x)
  obtain x' y where a: "advance x = (x', y)" by (cases "advance x")
  show ?case
  proof (cases y)
    case (Inl p)
    with a advance_ctx[OF a] show ?thesis by simp
  next
    case (Inr h)
    from 6[OF a[symmetric] Inr] advance_ctx[OF a] a Inr show ?thesis by simp
  qed
qed simp_all

lemma Hooks_Run_ctx:
  "ctx_Route (ctx (snd (Hooks_Run hooks name d x))) = ctx_Route (ctx x)
   \<and> StartedAt (ctx (snd (Hooks_Run hooks name d x))) = StartedAt (ctx x)"
  by (simp add: Hooks_Run_def run_ctx)

lemma serve_order_free:
  assumes "ranges (Routes app) es1" and "ranges (Routes app) es2" and "ctx_Route (ctx x0) = None"
    and "\<forall>n r n' r'. Routes app n = Some r \<and> Routes app n' = Some r'
               \<and> route_matches U (dispatch_method app req) (URL_Path req) r
               \<and> route_matches U (dispatch_method app req) (URL_Path req) r' \<longrightarrow> n = n'"
  shows "serve U app es1 req x0 = serve U app es2 req x0"
proof -
  obtain p x1 where h: "Hooks_Run (app_Hooks app) ''start_request'' HookDirectionNormal x0 = (p, x1)"
    by (cases "Hooks_Run (app_Hooks app) ''start_request'' HookDirectionNormal x0")
  from Hooks_Run_ctx[of "app_Hooks app" "''start_request''" HookDirectionNormal x0] h assms(3)
  have "ctx_Route (ctx x1) = None" by simp
  from match_routes_order_free[OF assms(1,2) this assms(4)]
  show ?thesis
    by (simp add: serve_def and_then_def h split: option.splits)
qed

text \<open>
  On a method with a byte outside ASCII, which only a client can supply, the comparison is
  the one of the Unicode upper case.
\<close>

lemma route_matches_non_ascii:
  "\<not> is_ascii verb \<Longrightarrow>
   route_matches U verb path route
     = (U verb = ToUpper U (Method route) \<and> length (Pattern route path) > 0)"
  by (simp add: route_matches_def ToUpper_def)

text \<open>
  C2, amended. Dispatch scans the routes in the order in which \<open>range app.Routes\<close> runs,
  skips the routes whose method differs or whose pattern does not match, and stops at the
  first route that matches: that route is selected and its groups
  are bound to its parameter names. The order of a map's \<open>range\<close> is not fixed; two runs
  on the same route table and request give the same result, whatever their orders, when at
  most one registered route matches the request. The methods are compared after
  \<open>strings.ToUpper\<close>, so a request method, which the client chooses when the overwrite is
  allowed, matches every route whose method has the same upper case; this holds whatever
  the upper case \<open>U\<close> of non-ASCII text is.
\<close>

theorem dispatch_first_match_in_range_order:
  "(ctx_Route c = None \<and> (\<forall>e\<in>set pre. \<not> route_matches U verb path (snd e))
      \<and> route_matches U verb path route \<longrightarrow>
      match_routes U verb path (pre @ (n, route) # post) c
        = (case add_PathParams (PathParamNames route) (Pattern route path) 0 c of
             (Some p, c') \<Rightarrow> (Some p, c')
           | (None, c') \<Rightarrow> (None, c'\<lparr>ctx_Route := Some route\<rparr>)))
   \<and> (ranges (Routes app) es1 \<and> ranges (Routes app) es2
      \<and> (\<forall>n r n' r'. Routes app n = Some r \<and> Routes app n' = Some r'
               \<and> route_matches U (dispatch_method app req) (URL_Path req) r
               \<and> route_matches U (dispatch_method app req) (URL_Path req) r' \<longrightarrow> n = n') \<longrightarrow>
      ServeHTTP U app es1 req t0 t1 = ServeHTTP U app es2 req t0 t1)"
proof (intro conjI impI)
  assume a: "ctx_Route c = None \<and> (\<forall>e\<in>set pre. \<not> route_matches U verb path (snd e))
      \<and> route_matches U verb path route"
  then have "match_routes U verb path (pre @ (n, route) # post) c
      = match_routes U verb path [(n, route)] c"
    by (simp add: match_routes_first del: match_routes.simps)
  also have "\<dots> = (case add_PathParams (PathParamNames route) (Pattern route path) 0 c of
             (Some p, c') \<Rightarrow> (Some p, c')
           | (None, c') \<Rightarrow> (None, c'\<lparr>ctx_Route := Some route\<rparr>))"
    using a by (simp add: match_routes_single del: match_routes.simps)
  finally show "match_routes U verb path (pre @ (n, route) # post) c
        = (case add_PathParams (PathParamNames route) (Pattern route path) 0 c of
             (Some p, c') \<Rightarrow> (Some p, c')
           | (None, c') \<Rightarrow> (None, c'\<lparr>ctx_Route := Some route\<rparr>))" .
next
  assume a: "ranges (Routes app) es1 \<and> ranges (Routes app) es2
      \<and> (\<forall>n r n' r'. Routes app n = Some r \<and> Routes app n' = Some r'
               \<and> route_matches U (dispatch_method app req) (URL_Path req) r
               \<and> route_matches U (dispatch_method app req) (URL_Path req) r' \<longrightarrow> n = n')"
  have "ctx_Route (ctx \<lparr>w = NewResponseWriter, ctx = NewContext\<lparr>StartedAt := t0\<rparr>\<rparr>) = None"
    by (simp add: NewContext_def)
  with a have "serve U app es1 req \<lparr>w = NewResponseWriter, ctx = NewContext\<lparr>StartedAt := t0\<rparr>\<rparr>
      = serve U app es2 req \<lparr>w = NewResponseWriter, ctx = NewContext\<lparr>StartedAt := t0\<rparr>\<rparr>"
    using serve_order_free by blast
  then show "ServeHTTP U app es1 req t0 t1 = ServeHTTP U app es2 req t0 t1"
    by (simp add: ServeHTTP_def)
qed

lemma Pattern_show_page_new: "Pattern show_page ''/pages/new'' = [''/pages/new'', ''new'']"
  by (simp add: show_page_def NewRoute_def anchored_def)

lemma Pattern_new_page_new: "Pattern new_page ''/pages/new'' = [''/pages/new'']"
  by (simp add: new_page_def NewRoute_def anchored_def)

lemma Pattern_show_page_home: "Pattern show_page ''/pages/home'' = [''/pages/home'', ''home'']"
  by (simp add: show_page_def NewRoute_def anchored_def)

lemma Pattern_new_page_home: "Pattern new_page ''/pages/home'' = []"
  by (simp add: new_page_def NewRoute_def anchored_def)

lemma wiki_routes:
  "PathParamNames show_page = [''name'']" "PathParamNames new_page = []"
  "Method show_page = ''GET''" "Method new_page = ''GET''"
  "Chain show_page = \<lparr>middlewares = [[Write ''show''], NopMiddleware], sp = - 1\<rparr>"
  "Chain new_page = \<lparr>middlewares = [[Write ''new''], NopMiddleware], sp = - 1\<rparr>"
  "Name show_page = ''show_page''" "Name new_page = ''new_page''"
  by (simp_all add: show_page_def new_page_def NewRoute_def param_name_re_def NewMiddlewareChain_def)

lemma wiki_ranges:
  "ranges (Routes app_wiki) [(''show_page'', show_page), (''new_page'', new_page)]"
  "ranges (Routes app_wiki) [(''new_page'', new_page), (''show_page'', show_page)]"
  by (auto simp: ranges_def app_wiki_def fun_eq_iff)

text \<open>
  C2. The claim: the scan order is fixed, so two runs on the same table and request select
  the same route. \<open>Routes\<close> is a Go map. With the routes \<open>/pages/(?P<name>[^/]+)\<close> and
  \<open>/pages/new\<close> registered, both orders below are orders of \<open>range\<close> over the same table,
  and \<open>GET /pages/new\<close> is served by \<open>show_page\<close> in one and by \<open>new_page\<close> in the other
  (the texts are ASCII, so this holds whatever the Unicode mapping \<open>U\<close> is).
\<close>

theorem dispatch_depends_on_range_order:
  "ranges (Routes app_wiki) [(''show_page'', show_page), (''new_page'', new_page)]
   \<and> ranges (Routes app_wiki) [(''new_page'', new_page), (''show_page'', show_page)]
   \<and> (\<forall>U. map_option Name (ctx_Route (ctx (snd
         (ServeHTTP U app_wiki [(''show_page'', show_page), (''new_page'', new_page)] get_pages_new 0 0))))
       = Some ''show_page'')
   \<and> (\<forall>U. body (w (snd
         (ServeHTTP U app_wiki [(''show_page'', show_page), (''new_page'', new_page)] get_pages_new 0 0)))
       = [''show''])
   \<and> (\<forall>U. map_option Name (ctx_Route (ctx (snd
         (ServeHTTP U app_wiki [(''new_page'', new_page), (''show_page'', show_page)] get_pages_new 0 0))))
       = Some ''new_page'')
   \<and> (\<forall>U. body (w (snd
         (ServeHTTP U app_wiki [(''new_page'', new_page), (''show_page'', show_page)] get_pages_new 0 0)))
       = [''new''])"
proof -
  have 1: "ServeHTTP U app_wiki [(''show_page'', show_page), (''new_page'', new_page)] get_pages_new 0 0
      = (None,
         \<lparr>w = w_Write ''show'' NewResponseWriter,
            ctx = \<lparr>ctx_Route = Some show_page, PathParams = [(''name'', ''new'')], StartedAt = 0,
                     ResponseTime = 0,
                     ctx_Chain = Some \<lparr>middlewares = [[Write ''show''], NopMiddleware], sp = 0\<rparr>\<rparr>\<rparr>)" for U
    by (simp add: ServeHTTP_def serve_def cleanup_def and_then_def Hooks_Run_def slice_at_def
          app_wiki_def get_pages_new_def dispatch_method_def test_config_def NewContext_def
          Pattern_show_page_new Pattern_new_page_new wiki_routes index_def Route_ServeHTTP_def
          Copy_def NewMiddlewareChain_def advance_def Sub_def minDuration_def maxDuration_def)
  have 2: "ServeHTTP U app_wiki [(''new_page'', new_page), (''show_page'', show_page)] get_pages_new 0 0
      = (None,
         \<lparr>w = w_Write ''new'' NewResponseWriter,
            ctx = \<lparr>ctx_Route = Some new_page, PathParams = [], StartedAt = 0,
                     ResponseTime = 0,
                     ctx_Chain = Some \<lparr>middlewares = [[Write ''new''], NopMiddleware], sp = 0\<rparr>\<rparr>\<rparr>)" for U
    by (simp add: ServeHTTP_def serve_def cleanup_def and_then_def Hooks_Run_def slice_at_def
          app_wiki_def get_pages_new_def dispatch_method_def test_config_def NewContext_def
          Pattern_show_page_new Pattern_new_page_new wiki_routes index_def Route_ServeHTTP_def
          Copy_def NewMiddlewareChain_def advance_def Sub_def minDuration_def maxDuration_def)
  show ?thesis
    unfolding 1 2 using wiki_ranges by (simp add: wiki_routes w_Write_def w_WriteHeader_def NewResponseWriter_def)
qed

lemma ToUpper_get: "ToUpper U ''get'' = ''GET''" "ToUpper U ''GET'' = ''GET''"
proof -
  have a: "is_ascii ''get''" "is_ascii ''GET''" by code_simp+
  have b: "map upper_byte ''get'' = ''GET''" "map upper_byte ''GET'' = ''GET''" by code_simp+
  show "ToUpper U ''get'' = ''GET''" "ToUpper U ''GET'' = ''GET''"
    by (simp_all only: ToUpper_def a b if_True)
qed

theorem dispatch_first_match_in_range_order_witness:
  "(\<forall>U. match_routes U ''get'' ''/pages/home''
            ([(''new_page'', new_page)] @ (''show_page'', show_page) # []) NewContext
          = (None, NewContext\<lparr>PathParams := [(''name'', ''home'')], ctx_Route := Some show_page\<rparr>))
   \<and> ranges (Routes app_wiki) [(''show_page'', show_page), (''new_page'', new_page)]
   \<and> ranges (Routes app_wiki) [(''new_page'', new_page), (''show_page'', show_page)]
   \<and> (\<forall>U. ServeHTTP U app_wiki [(''show_page'', show_page), (''new_page'', new_page)] get_pages_home 0 0
          = ServeHTTP U app_wiki [(''new_page'', new_page), (''show_page'', show_page)] get_pages_home 0 0)"
proof -
  note T = dispatch_first_match_in_range_order
  have 1: "match_routes U ''get'' ''/pages/home''
            ([(''new_page'', new_page)] @ (''show_page'', show_page) # []) NewContext
          = (None, NewContext\<lparr>PathParams := [(''name'', ''home'')], ctx_Route := Some show_page\<rparr>)" for U
  proof -
    have h1: "ctx_Route NewContext = None \<and>
        (\<forall>e\<in>set [(''new_page'', new_page)]. \<not> route_matches U ''get'' ''/pages/home'' (snd e))
        \<and> route_matches U ''get'' ''/pages/home'' show_page"
      by (simp add: NewContext_def route_matches_def Pattern_new_page_home Pattern_show_page_home
            wiki_routes ToUpper_get)
    have a: "add_PathParams (PathParamNames show_page) (Pattern show_page ''/pages/home'') 0 NewContext
        = (None, NewContext\<lparr>PathParams := [(''name'', ''home'')]\<rparr>)"
      by (simp add: wiki_routes Pattern_show_page_home index_def NewContext_def)
    from T[where U = U and c = NewContext and pre = "[(''new_page'', new_page)]" and verb = "''get''"
              and path = "''/pages/home''" and route = show_page and n = "''show_page''" and post = "[]"]
         h1
    have "match_routes U ''get'' ''/pages/home''
              ([(''new_page'', new_page)] @ (''show_page'', show_page) # []) NewContext
       = (case add_PathParams (PathParamNames show_page) (Pattern show_page ''/pages/home'') 0 NewContext of
               (Some p, c') \<Rightarrow> (Some p, c')
             | (None, c') \<Rightarrow> (None, c'\<lparr>ctx_Route := Some show_page\<rparr>))"
      by blast
    with a show ?thesis by simp
  qed
  have 2: "ServeHTTP U app_wiki [(''show_page'', show_page), (''new_page'', new_page)] get_pages_home 0 0
     = ServeHTTP U app_wiki [(''new_page'', new_page), (''show_page'', show_page)] get_pages_home 0 0" for U
  proof -
    have u: "\<forall>n r n' r'. Routes app_wiki n = Some r \<and> Routes app_wiki n' = Some r'
                 \<and> route_matches U (dispatch_method app_wiki get_pages_home) (URL_Path get_pages_home) r
                 \<and> route_matches U (dispatch_method app_wiki get_pages_home) (URL_Path get_pages_home) r'
                 \<longrightarrow> n = n'"
      by (auto simp: app_wiki_def route_matches_def get_pages_home_def Pattern_new_page_home
            split: if_splits)
    from T[where U = U and app = app_wiki
              and ?es1.0 = "[(''show_page'', show_page), (''new_page'', new_page)]"
              and ?es2.0 = "[(''new_page'', new_page), (''show_page'', show_page)]"
              and req = get_pages_home and ?t0.0 = 0 and ?t1.0 = 0]
         wiki_ranges u
    show ?thesis by blast
  qed
  from 1 2 wiki_ranges show ?thesis by blast
qed

section \<open>Properties of the deferred cleanup\<close>

lemma body_w_WriteHeader: "body (w_WriteHeader st v) = body v"
  by (simp add: w_WriteHeader_def)

lemma panic_response:
  "status (w_Write b (w_WriteHeader 500 v)) = 500
   \<and> body (w_Write b (w_WriteHeader 500 v)) = body v @ [b]
   \<and> header_calls (w_Write b (w_WriteHeader 500 v))
       = header_calls v @ (if contentLength v = 0 then [500, 500] else [500])"
  by (simp add: w_Write_def w_WriteHeader_def Let_def)

lemma run_quiet:
  "list_all quiet hs \<Longrightarrow>
   fst (run hs x) = None \<and> ctx (snd (run hs x)) = ctx x
   \<and> body (w (snd (run hs x))) = body (w x) @ concat (map written hs)"
proof (induction hs x rule: run.induct)
  case (1 x)
  then show ?case by simp
next
  case (2 ks x)
  then show ?case by (simp add: written_def)
next
  case (3 b as ks x)
  then show ?case by (simp add: quiet_def written_def body_w_Write)
next
  case (4 st as ks x)
  then show ?case by (simp add: quiet_def written_def body_w_WriteHeader)
next
  case (5 v as ks x)
  then show ?case by (simp add: quiet_def is_write_def)
next
  case (6 as ks x)
  then show ?case by (simp add: quiet_def is_write_def)
qed

lemma advance_ResponseTime: "advance x = (x', y) \<Longrightarrow> ResponseTime (ctx x') = ResponseTime (ctx x)"
  by (auto simp: advance_def Let_def split: option.splits)

lemma run_ResponseTime: "ResponseTime (ctx (snd (run ks x))) = ResponseTime (ctx x)"
proof (induction ks x rule: run.induct)
  case (6 as ks x)
  obtain x' y where a: "advance x = (x', y)" by (cases "advance x")
  show ?case
  proof (cases y)
    case (Inl p)
    with a advance_ResponseTime[OF a] show ?thesis by simp
  next
    case (Inr h)
    from 6[OF a[symmetric] Inr] advance_ResponseTime[OF a] a Inr show ?thesis by simp
  qed
qed simp_all

lemma run_DefaultOnPanic:
  "run [DefaultOnPanic cfg stack_text rcv] x
     = (None, x\<lparr>w := w_Write ((if Debug cfg then stack_text rcv else ''Internal Server Error'') @ [CHR 0x0A])
                          (w_WriteHeader 500 (w x))\<rparr>)"
  by (simp add: DefaultOnPanic_def http_Error_def)

lemma add_PathParams_StartedAt:
  "StartedAt (snd (add_PathParams names sub i c)) = StartedAt c"
  by (induction names arbitrary: i c) (auto split: sum.splits)

lemma match_routes_StartedAt:
  "StartedAt (snd (match_routes U verb path es c)) = StartedAt c"
proof (induction es arbitrary: c)
  case Nil
  then show ?case by simp
next
  case (Cons e es)
  obtain n r where e: "e = (n, r)" by (cases e)
  have a: "StartedAt (snd (add_PathParams (PathParamNames r) (Pattern r path) 0 c)) = StartedAt c"
    by (rule add_PathParams_StartedAt)
  show ?case
    using Cons.IH a
    by (auto simp: e Let_def split: prod.splits option.splits)
qed

lemma Route_ServeHTTP_StartedAt:
  "StartedAt (ctx (snd (Route_ServeHTTP route x))) = StartedAt (ctx x)"
  by (simp add: Route_ServeHTTP_def run_ctx del: run.simps)

lemma serve_StartedAt:
  "StartedAt (ctx (snd (serve U app order r x0))) = StartedAt (ctx x0)"
proof -
  obtain p1 x1 where h1: "Hooks_Run (app_Hooks app) ''start_request'' HookDirectionNormal x0 = (p1, x1)"
    by (cases "Hooks_Run (app_Hooks app) ''start_request'' HookDirectionNormal x0")
  from Hooks_Run_ctx[of "app_Hooks app" "''start_request''" HookDirectionNormal x0] h1
  have s1: "StartedAt (ctx x1) = StartedAt (ctx x0)" by simp
  show ?thesis
  proof (cases p1)
    case (Some a)
    with h1 s1 show ?thesis by (simp add: serve_def and_then_def)
  next
    case None
    obtain p2 c where m: "match_routes U (dispatch_method app r) (URL_Path r) order (ctx x1) = (p2, c)"
      by (cases "match_routes U (dispatch_method app r) (URL_Path r) order (ctx x1)")
    from match_routes_StartedAt[of U "dispatch_method app r" "URL_Path r" order "ctx x1"] m s1
    have s2: "StartedAt c = StartedAt (ctx x0)" by simp
    show ?thesis
    proof (cases p2)
      case (Some a)
      with h1 None m s2 show ?thesis by (simp add: serve_def and_then_def)
    next
      case p2: None
      show ?thesis
      proof (cases "ctx_Route c")
        case None
        with h1 \<open>p1 = None\<close> m p2 s2 show ?thesis
          by (simp add: serve_def and_then_def run_ctx)
      next
        case (Some route)
        let ?x2 = "x1\<lparr>ctx := c\<rparr>"
        obtain p3 x3 where h3: "Hooks_Run (app_Hooks app) ''start_action'' HookDirectionNormal ?x2 = (p3, x3)"
          by (cases "Hooks_Run (app_Hooks app) ''start_action'' HookDirectionNormal ?x2")
        from Hooks_Run_ctx[of "app_Hooks app" "''start_action''" HookDirectionNormal ?x2] h3 s2
        have s3: "StartedAt (ctx x3) = StartedAt (ctx x0)" by simp
        obtain p4 x4 where h4: "Route_ServeHTTP route x3 = (p4, x4)"
          by (cases "Route_ServeHTTP route x3")
        from Route_ServeHTTP_StartedAt[of route x3] h4 s3
        have s4: "StartedAt (ctx x4) = StartedAt (ctx x0)" by simp
        from Hooks_Run_ctx[of "app_Hooks app" "''end_action''" HookDirectionReverse x4] s4
        have s5: "StartedAt (ctx (snd (Hooks_Run (app_Hooks app) ''end_action'' HookDirectionReverse x4)))
            = StartedAt (ctx x0)" by simp
        from h1 \<open>p1 = None\<close> m p2 Some h3 h4 s3 s4 s5 show ?thesis
          by (simp add: serve_def and_then_def split: option.splits)
      qed
    qed
  qed
qed

lemma ServeHTTP_cleanup:
  assumes "serve U app order r \<lparr>w = NewResponseWriter, ctx = NewContext\<lparr>StartedAt := t0\<rparr>\<rparr> = (p, x)"
  shows "ServeHTTP U app order r t0 t1
       = and_then (case p of None \<Rightarrow> (None, x) | Some rcv \<Rightarrow> run [OnPanic app rcv] x) (\<lambda>x1.
           run (rev (slice_at (app_Hooks app) ''end_request''))
             (x1\<lparr>ctx := (ctx x1)\<lparr>ResponseTime := Sub t1 (StartedAt (ctx x1))\<rparr>\<rparr>))"
  using assms by (simp add: ServeHTTP_def cleanup_def Hooks_Run_def)

text \<open>
  C4. The claim is stated for every request: the cleanup, with all its \<open>end_request\<close>
  hooks, runs on every exit path, and the panic is recovered. The deferred call is itself
  unprotected. In the application of \<open>TestAppPanic\<close> with the hooks \<open>first\<close> and \<open>boom\<close>
  registered in that order, the handler's panic is recovered and answered with the 500
  body, then the hook \<open>boom\<close> runs first and panics: its panic leaves \<open>ServeHTTP\<close> and the
  hook \<open>first\<close> never runs. With a panic handler that panics, neither the latency is
  recorded nor any hook run.
\<close>

theorem panicking_hook_leaves_ServeHTTP:
  "(\<forall>U. fst (ServeHTTP U app_hook_panics [(''page1'', page1)] get_page1 5 9)
          = Some (PanicValue ''boom''))
   \<and> (\<forall>U. body (w (snd (ServeHTTP U app_hook_panics [(''page1'', page1)] get_page1 5 9)))
          = [''Internal Server Error'' @ [CHR 0x0A]])
   \<and> (\<forall>U. fst (ServeHTTP U app_OnPanic_panics [(''page1'', page1)] get_page1 5 9)
          = Some (PanicValue ''again''))
   \<and> (\<forall>U. body (w (snd (ServeHTTP U app_OnPanic_panics [(''page1'', page1)] get_page1 5 9))) = [])
   \<and> (\<forall>U. ResponseTime (ctx (snd (ServeHTTP U app_OnPanic_panics [(''page1'', page1)] get_page1 5 9)))
          = 0)"
proof -
  have r: "Pattern page1 ''/page1'' = [''/page1'']" "PathParamNames page1 = []" "Method page1 = ''GET''"
    "Chain page1 = \<lparr>middlewares = [[Panic ''panic!''], NopMiddleware], sp = - 1\<rparr>"
    by (simp_all add: page1_def NewRoute_def anchored_def param_name_re_def NewMiddlewareChain_def)
  have 1: "ServeHTTP U app_hook_panics [(''page1'', page1)] get_page1 5 9
      = (Some (PanicValue ''boom''),
         \<lparr>w = w_Write (''Internal Server Error'' @ [CHR 0x0A]) (w_WriteHeader 500 NewResponseWriter),
            ctx = \<lparr>ctx_Route = Some page1, PathParams = [], StartedAt = 5, ResponseTime = 4,
                     ctx_Chain = Some \<lparr>middlewares = [[Panic ''panic!''], NopMiddleware], sp = 0\<rparr>\<rparr>\<rparr>)" for U
    by (simp add: ServeHTTP_def cleanup_def serve_def and_then_def Hooks_Run_def slice_at_def
          app_hook_panics_def get_page1_def dispatch_method_def test_config_def NewContext_def r
          index_def Route_ServeHTTP_def Copy_def NewMiddlewareChain_def advance_def
          DefaultOnPanic_def http_Error_def Sub_def minDuration_def maxDuration_def)
  have 2: "ServeHTTP U app_OnPanic_panics [(''page1'', page1)] get_page1 5 9
      = (Some (PanicValue ''again''),
         \<lparr>w = NewResponseWriter,
            ctx = \<lparr>ctx_Route = Some page1, PathParams = [], StartedAt = 5, ResponseTime = 0,
                     ctx_Chain = Some \<lparr>middlewares = [[Panic ''panic!''], NopMiddleware], sp = 0\<rparr>\<rparr>\<rparr>)" for U
    by (simp add: ServeHTTP_def cleanup_def serve_def and_then_def Hooks_Run_def slice_at_def
          app_OnPanic_panics_def get_page1_def dispatch_method_def test_config_def NewContext_def r
          index_def Route_ServeHTTP_def Copy_def NewMiddlewareChain_def advance_def)
  show ?thesis
    unfolding 1 2 by (simp add: panic_response) (simp add: NewResponseWriter_def)
qed

text \<open>
  C4, amended. Let the statements after \<open>defer app.cleanup(w, r)\<close> end with \<open>p\<close> (the panic
  of a handler, middleware or hook, or \<open>None\<close> on a return, the not-found return included)
  in the exchange \<open>x\<close>. A panic is recovered in the deferred call and passed once to the
  configured panic handler. The default panic handler returns, whatever the debug flag,
  having sent the status 500 and written the 500 body: the generic text with debug
  disabled, the panic value and the stack otherwise. On every
  exit path, once the panic handler (if it was called) has returned, in \<open>x1\<close>, the latency
  is recorded and the \<open>end_request\<close> hooks are run in reverse order; the recorded latency
  stays whatever the hooks do. When no \<open>end_request\<close> hook panics, no panic leaves
  \<open>ServeHTTP\<close> and all the hooks have run. A panic of the panic handler itself leaves
  \<open>ServeHTTP\<close> and skips the rest of the cleanup.
\<close>

theorem panic_recovered_and_cleanup_runs:
  assumes "serve U app order r \<lparr>w = NewResponseWriter, ctx = NewContext\<lparr>StartedAt := t0\<rparr>\<rparr> = (p, x)"
  shows "(p = Some rcv \<and> OnPanic app = DefaultOnPanic (Config app) stack_text \<longrightarrow>
            (\<exists>v. run [OnPanic app rcv] x = (None, x\<lparr>w := v\<rparr>)
                \<and> status v = 500
                \<and> header_calls v
                    = header_calls (w x) @ (if contentLength (w x) = 0 then [500, 500] else [500])
                \<and> body v = body (w x)
                    @ [(if Debug (Config app) then stack_text rcv else ''Internal Server Error'') @ [CHR 0x0A]]))
       \<and> ((case p of None \<Rightarrow> (None, x) | Some rcv \<Rightarrow> run [OnPanic app rcv] x) = (None, x1) \<longrightarrow>
            ServeHTTP U app order r t0 t1
              = run (rev (slice_at (app_Hooks app) ''end_request''))
                  (x1\<lparr>ctx := (ctx x1)\<lparr>ResponseTime := Sub t1 t0\<rparr>\<rparr>)
          \<and> ResponseTime (ctx (snd (ServeHTTP U app order r t0 t1))) = Sub t1 t0
          \<and> (list_all quiet (slice_at (app_Hooks app) ''end_request'') \<longrightarrow>
                fst (ServeHTTP U app order r t0 t1) = None
              \<and> body (w (snd (ServeHTTP U app order r t0 t1)))
                  = body (w x1) @ concat (map written (rev (slice_at (app_Hooks app) ''end_request'')))))
       \<and> ((case p of None \<Rightarrow> (None, x) | Some rcv \<Rightarrow> run [OnPanic app rcv] x) = (Some q, x1) \<longrightarrow>
            ServeHTTP U app order r t0 t1 = (Some q, x1))"
proof (intro conjI impI)
  assume a: "p = Some rcv \<and> OnPanic app = DefaultOnPanic (Config app) stack_text"
  let ?b = "(if Debug (Config app) then stack_text rcv else ''Internal Server Error'') @ [CHR 0x0A]"
  let ?v = "w_Write ?b (w_WriteHeader 500 (w x))"
  have "run [OnPanic app rcv] x = (None, x\<lparr>w := ?v\<rparr>)"
    using a by (simp only: run_DefaultOnPanic)
  with panic_response[of ?b "w x"]
  show "\<exists>v. run [OnPanic app rcv] x = (None, x\<lparr>w := v\<rparr>)
                \<and> status v = 500
                \<and> header_calls v
                    = header_calls (w x) @ (if contentLength (w x) = 0 then [500, 500] else [500])
                \<and> body v = body (w x)
                    @ [(if Debug (Config app) then stack_text rcv else ''Internal Server Error'') @ [CHR 0x0A]]"
    by blast
next
  assume h: "(case p of None \<Rightarrow> (None, x) | Some rcv \<Rightarrow> run [OnPanic app rcv] x) = (None, x1)"
  let ?hs = "rev (slice_at (app_Hooks app) ''end_request'')"
  let ?x2 = "x1\<lparr>ctx := (ctx x1)\<lparr>ResponseTime := Sub t1 t0\<rparr>\<rparr>"
  have st: "StartedAt (ctx x) = t0"
    using serve_StartedAt[of U app order r "\<lparr>w = NewResponseWriter, ctx = NewContext\<lparr>StartedAt := t0\<rparr>\<rparr>"]
      assms by simp
  have "StartedAt (ctx x1) = StartedAt (ctx x)"
  proof (cases p)
    case None
    with h show ?thesis by simp
  next
    case (Some v)
    with h have "x1 = snd (run [OnPanic app v] x)" by simp
    then show ?thesis by (simp add: run_ctx del: run.simps)
  qed
  with st have st1: "StartedAt (ctx x1) = t0" by simp
  show c: "ServeHTTP U app order r t0 t1 = run ?hs ?x2"
    using ServeHTTP_cleanup[OF assms, of t1] h st1 by (simp add: and_then_def)
  show "ResponseTime (ctx (snd (ServeHTTP U app order r t0 t1))) = Sub t1 t0"
    unfolding c by (simp add: run_ResponseTime)
  assume "list_all quiet (slice_at (app_Hooks app) ''end_request'')"
  then have q: "list_all quiet ?hs" by (simp add: list_all_iff)
  from run_quiet[OF q, of ?x2]
  show "fst (ServeHTTP U app order r t0 t1) = None"
    and "body (w (snd (ServeHTTP U app order r t0 t1))) = body (w x1) @ concat (map written ?hs)"
    unfolding c by simp_all
next
  assume h: "(case p of None \<Rightarrow> (None, x) | Some rcv \<Rightarrow> run [OnPanic app rcv] x) = (Some q, x1)"
  show "ServeHTTP U app order r t0 t1 = (Some q, x1)"
    using ServeHTTP_cleanup[OF assms, of t1] h by (simp add: and_then_def)
qed

theorem panic_recovered_and_cleanup_runs_witness:
  "(\<forall>U. serve U app_panic [(''page1'', page1)] get_page1
            \<lparr>w = NewResponseWriter, ctx = NewContext\<lparr>StartedAt := 5\<rparr>\<rparr>
          = (Some (PanicValue ''panic!''),
             \<lparr>w = NewResponseWriter,
                ctx = \<lparr>ctx_Route = Some page1, PathParams = [], StartedAt = 5, ResponseTime = 0,
                         ctx_Chain = Some \<lparr>middlewares = [[Panic ''panic!''], NopMiddleware], sp = 0\<rparr>\<rparr>\<rparr>))
   \<and> status (w (snd (run [OnPanic app_panic (PanicValue ''panic!'')]
        \<lparr>w = NewResponseWriter,
           ctx = \<lparr>ctx_Route = Some page1, PathParams = [], StartedAt = 5, ResponseTime = 0,
                    ctx_Chain = Some \<lparr>middlewares = [[Panic ''panic!''], NopMiddleware], sp = 0\<rparr>\<rparr>\<rparr>))) = 500
   \<and> (\<forall>U. fst (ServeHTTP U app_panic [(''page1'', page1)] get_page1 5 9) = None)
   \<and> (\<forall>U. body (w (snd (ServeHTTP U app_panic [(''page1'', page1)] get_page1 5 9)))
          = [''Internal Server Error'' @ [CHR 0x0A], ''second'', ''first''])
   \<and> (\<forall>U. ResponseTime (ctx (snd (ServeHTTP U app_panic [(''page1'', page1)] get_page1 5 9))) = 4)
   \<and> (\<forall>U. ServeHTTP U app_OnPanic_panics [(''page1'', page1)] get_page1 5 9
          = (Some (PanicValue ''again''),
             \<lparr>w = NewResponseWriter,
                ctx = \<lparr>ctx_Route = Some page1, PathParams = [], StartedAt = 5, ResponseTime = 0,
                         ctx_Chain = Some \<lparr>middlewares = [[Panic ''panic!''], NopMiddleware], sp = 0\<rparr>\<rparr>\<rparr>))"
proof -
  let ?P = "PanicValue ''panic!''"
  let ?X = "\<lparr>w = NewResponseWriter,
              ctx = \<lparr>ctx_Route = Some page1, PathParams = [], StartedAt = 5, ResponseTime = 0,
                       ctx_Chain = Some \<lparr>middlewares = [[Panic ''panic!''], NopMiddleware], sp = 0\<rparr>\<rparr>\<rparr>"
  note T = panic_recovered_and_cleanup_runs
  have r: "Pattern page1 ''/page1'' = [''/page1'']" "PathParamNames page1 = []" "Method page1 = ''GET''"
    "Chain page1 = \<lparr>middlewares = [[Panic ''panic!''], NopMiddleware], sp = - 1\<rparr>"
    by (simp_all add: page1_def NewRoute_def anchored_def param_name_re_def NewMiddlewareChain_def)
  have s: "serve U app_panic [(''page1'', page1)] get_page1
             \<lparr>w = NewResponseWriter, ctx = NewContext\<lparr>StartedAt := 5\<rparr>\<rparr> = (Some ?P, ?X)" for U
    by (simp add: serve_def and_then_def Hooks_Run_def slice_at_def app_panic_def get_page1_def
          dispatch_method_def test_config_def NewContext_def r index_def Route_ServeHTTP_def
          Copy_def NewMiddlewareChain_def advance_def)
  have s2: "serve U app_OnPanic_panics [(''page1'', page1)] get_page1
             \<lparr>w = NewResponseWriter, ctx = NewContext\<lparr>StartedAt := 5\<rparr>\<rparr> = (Some ?P, ?X)" for U
    by (simp add: serve_def and_then_def Hooks_Run_def slice_at_def app_OnPanic_panics_def get_page1_def
          dispatch_method_def test_config_def NewContext_def r index_def Route_ServeHTTP_def
          Copy_def NewMiddlewareChain_def advance_def)
  have a: "Some ?P = Some ?P \<and> OnPanic app_panic = DefaultOnPanic (Config app_panic) (\<lambda>rcv. [])"
    and d: "\<not> Debug (Config app_panic)"
    and q: "list_all quiet (slice_at (app_Hooks app_panic) ''end_request'')"
    and hs: "rev (slice_at (app_Hooks app_panic) ''end_request'') = [[Write ''second''], [Write ''first'']]"
    by (simp_all add: app_panic_def test_config_def slice_at_def quiet_def is_write_def)
  have t: "Sub 9 5 = 4"
    by (simp add: Sub_def minDuration_def maxDuration_def)
  from T[OF s, where rcv = ?P and stack_text = "\<lambda>rcv. []", THEN conjunct1, THEN mp, OF a]
  obtain v where v: "run [OnPanic app_panic ?P] ?X = (None, ?X\<lparr>w := v\<rparr>)"
    and v1: "status v = 500"
    and v0: "body v = body (w ?X)
               @ [(if Debug (Config app_panic) then [] else ''Internal Server Error'') @ [CHR 0x0A]]"
    by blast
  from v0 d have v2: "body v = body (w ?X) @ [''Internal Server Error'' @ [CHR 0x0A]]"
    by simp
  have 1: "status (w (snd (run [OnPanic app_panic ?P] ?X))) = 500"
    using v v1 by simp
  have h: "(case Some ?P of None \<Rightarrow> (None, ?X) | Some rcv \<Rightarrow> run [OnPanic app_panic rcv] ?X)
             = (None, ?X\<lparr>w := v\<rparr>)"
    using v by simp
  have 2: "fst (ServeHTTP U app_panic [(''page1'', page1)] get_page1 5 9) = None
      \<and> body (w (snd (ServeHTTP U app_panic [(''page1'', page1)] get_page1 5 9)))
          = [''Internal Server Error'' @ [CHR 0x0A], ''second'', ''first'']
      \<and> ResponseTime (ctx (snd (ServeHTTP U app_panic [(''page1'', page1)] get_page1 5 9))) = 4" for U
  proof -
    from T[OF s, where ?x1.0 = "?X\<lparr>w := v\<rparr>" and ?t1.0 = 9 and U = U] h q
    have "fst (ServeHTTP U app_panic [(''page1'', page1)] get_page1 5 9) = None"
      and "body (w (snd (ServeHTTP U app_panic [(''page1'', page1)] get_page1 5 9)))
             = body (w (?X\<lparr>w := v\<rparr>)) @ concat (map written (rev (slice_at (app_Hooks app_panic) ''end_request'')))"
      and "ResponseTime (ctx (snd (ServeHTTP U app_panic [(''page1'', page1)] get_page1 5 9))) = Sub 9 5"
      by blast+
    with v2 t hs show ?thesis
      by (simp add: written_def NewResponseWriter_def)
  qed
  have 3: "ServeHTTP U app_OnPanic_panics [(''page1'', page1)] get_page1 5 9
             = (Some (PanicValue ''again''), ?X)" for U
  proof -
    have h2: "(case Some ?P of None \<Rightarrow> (None, ?X) | Some rcv \<Rightarrow> run [OnPanic app_OnPanic_panics rcv] ?X)
             = (Some (PanicValue ''again''), ?X)"
      by (simp add: app_OnPanic_panics_def)
    from T[OF s2, where q = "PanicValue ''again''" and ?x1.0 = ?X and ?t1.0 = 9 and U = U] h2
    show ?thesis by blast
  qed
  from s 1 2 3 show ?thesis by blast
qed

end
